theory Spec2Isabelle
  imports Complex_Main "HOL-Library.AList" "HOL-Library.Sublist" "HOL-Library.Option_ord"
    "HOL-Library.Multiset"
begin

section \<open>Python strings\<close>

text \<open>
  A string is a list of characters. The operations of this section do not depend on what a
  character is: they compare characters with given ones, join and slice.
\<close>

definition strip_chars :: "(char \<Rightarrow> bool) \<Rightarrow> string \<Rightarrow> string" where
  \<comment> \<open>removes the leading and the trailing characters that satisfy the test\<close>
  "strip_chars P s = rev (dropWhile P (rev (dropWhile P s)))"

definition strip_punct :: "string \<Rightarrow> string" where
  \<comment> \<open>\<^verbatim>\<open>s.strip('.,;:!?')\<close>\<close>
  "strip_punct s = strip_chars (\<lambda>c. c \<in> set ''.,;:!?'') s"

fun join :: "string \<Rightarrow> string list \<Rightarrow> string" where
  \<comment> \<open>\<^verbatim>\<open>sep.join(xs)\<close>\<close>
  "join sep [] = []"
| "join sep [x] = x"
| "join sep (x # y # ys) = x @ sep @ join sep (y # ys)"

definition startswith :: "string \<Rightarrow> string \<Rightarrow> bool" where
  \<comment> \<open>\<^verbatim>\<open>s.startswith(p)\<close>\<close>
  "startswith s p = prefix p s"

definition py_slice_to :: "int \<Rightarrow> 'a list \<Rightarrow> 'a list" where
  \<comment> \<open>\<^verbatim>\<open>xs[:n]\<close>: a negative bound counts from the end\<close>
  "py_slice_to n xs =
     (if 0 \<le> n then take (nat n) xs else take (length xs - nat (- n)) xs)"

section \<open>Sorting as \<^verbatim>\<open>sorted(xs, key=f, reverse=True)\<close>\<close>

text \<open>
  Python's sort is stable, also under \<^verbatim>\<open>reverse=True\<close>: the result is in
  descending key order and elements of equal key keep the order they had. Insertion from
  the right, each element going in front of the first one whose key is not larger, is that
  sort.
\<close>

fun insort_desc :: "('a \<Rightarrow> 'k::linorder) \<Rightarrow> 'a \<Rightarrow> 'a list \<Rightarrow> 'a list" where
  "insort_desc f x [] = [x]"
| "insort_desc f x (y # ys) =
     (if f y \<le> f x then x # y # ys else y # insort_desc f x ys)"

definition sorted_desc :: "('a \<Rightarrow> 'k::linorder) \<Rightarrow> 'a list \<Rightarrow> 'a list" where
  "sorted_desc f xs = foldr (insort_desc f) xs []"

section \<open>Counters and insertion-ordered dictionaries\<close>

text \<open>
  A Python dictionary keeps its keys in the order of their first insertion; assigning to a
  key that is present replaces the value in place. \<^const>\<open>AList.update\<close> on an
  association list does both. \<^verbatim>\<open>Counter\<close> and \<^verbatim>\<open>FreqDist\<close> are
  dictionaries from element to count, filled one element at a time.
\<close>

type_synonym counter = "(string \<times> nat) list"

definition counter_add :: "counter \<Rightarrow> string \<Rightarrow> counter" where
  \<comment> \<open>\<^verbatim>\<open>self[elem] = self.get(elem, 0) + 1\<close>\<close>
  "counter_add c w =
     AList.update w ((case map_of c w of None \<Rightarrow> 0 | Some k \<Rightarrow> k) + 1) c"

definition Counter :: "string list \<Rightarrow> counter" where
  "Counter ws = foldl counter_add [] ws"

definition counter_get :: "counter \<Rightarrow> string \<Rightarrow> nat" where
  \<comment> \<open>\<^verbatim>\<open>freq[w]\<close>: a missing key counts 0\<close>
  "counter_get c w = (case map_of c w of None \<Rightarrow> 0 | Some k \<Rightarrow> k)"

definition counter_mem :: "string \<Rightarrow> counter \<Rightarrow> bool" where
  \<comment> \<open>\<^verbatim>\<open>w in freq\<close>\<close>
  "counter_mem w c = (map_of c w \<noteq> None)"


section \<open>Positions and first occurrences\<close>

definition first_index :: "'a list \<Rightarrow> 'a \<Rightarrow> nat" where
  \<comment> \<open>the position of the first occurrence of \<open>x\<close> in \<open>xs\<close>
      (the length of \<open>xs\<close> when there is none)\<close>
  "first_index xs x = length (takeWhile (\<lambda>y. y \<noteq> x) xs)"

fun firsts :: "'a list \<Rightarrow> 'a list" where
  \<comment> \<open>the distinct elements of a list, in the order of their first occurrence\<close>
  "firsts [] = []"
| "firsts (x # xs) = x # filter (\<lambda>y. y \<noteq> x) (firsts xs)"

section \<open>The libraries the program calls\<close>

text \<open>
  The program computes with what its libraries return; none of them is part of it. They
  are the parameters of the model, gathered in one record:
  \<^item> NLTK: sentence splitting, word tokenisation, part-of-speech tagging and the stop-word set;
  \<^item> the methods of \<^verbatim>\<open>str\<close> that depend on Python's table of characters:
    \<^verbatim>\<open>isalnum\<close>, \<^verbatim>\<open>isalpha\<close>, \<^verbatim>\<open>lower\<close>, \<^verbatim>\<open>capitalize\<close> and
    \<^verbatim>\<open>strip\<close> (which removes white space);
  \<^item> the module \<^verbatim>\<open>re\<close>: \<open>search_ci target s\<close> is the place and the length of the
    leftmost match of \<^verbatim>\<open>re.compile(re.escape(target), re.IGNORECASE)\<close> in \<open>s\<close>, if
    there is one;
  \<^item> floating-point arithmetic, a float being given by its value, a rational number:
    the quotient of two integers, the product of two floats, and \<^verbatim>\<open>round(x, 1)\<close>;
  \<^item> the order in which Python lists the elements of a set of strings,
    \<^verbatim>\<open>list(set(xs))\<close>, which follows the hashes of the strings and changes from one run
    of the interpreter to the next.

  What the proofs need of them is stated in the four predicates below; each holds of
  Python. A set lists each of its elements once. The first character of a capitalized
  string is in title case, so never a letter from a to z. Converting to lower case twice is
  converting once, and only the empty string becomes empty. The quotient of an integer by
  a larger one lies between 0 and 1, the product of such a float with 100 between 0 and
  100, and the rounding of such a product to one decimal between 0 and 100 again: each
  operation rounds monotonically and 0, 1 and 100 are floats.
\<close>

record services =
  sent_tokenize :: "string \<Rightarrow> string list"
  word_tokenize :: "string \<Rightarrow> string list"
  pos_tag :: "string list \<Rightarrow> (string \<times> string) list"
  stop_words :: "string set"
  isalnum :: "string \<Rightarrow> bool"
  isalpha :: "string \<Rightarrow> bool"
  lower :: "string \<Rightarrow> string"
  capitalize :: "string \<Rightarrow> string"
  strip :: "string \<Rightarrow> string"
  search_ci :: "string \<Rightarrow> string \<Rightarrow> (nat \<times> nat) option"
  float_div :: "nat \<Rightarrow> nat \<Rightarrow> rat"
  float_mul :: "rat \<Rightarrow> rat \<Rightarrow> rat"
  round1 :: "rat \<Rightarrow> rat"
  set_list :: "string list \<Rightarrow> string list"

definition set_list_ok :: "services \<Rightarrow> bool" where
  "set_list_ok sv = (\<forall>xs. set (set_list sv xs) = set xs \<and> distinct (set_list sv xs))"

definition capitalize_ok :: "services \<Rightarrow> bool" where
  "capitalize_ok sv =
     (\<forall>s. capitalize sv s = [] \<or> hd (capitalize sv s) \<notin> set ''abcdefghijklmnopqrstuvwxyz'')"

definition lower_ok :: "services \<Rightarrow> bool" where
  "lower_ok sv =
     ((\<forall>s. lower sv (lower sv s) = lower sv s) \<and> (\<forall>s. (lower sv s = []) = (s = [])))"

definition float_ok :: "services \<Rightarrow> bool" where
  "float_ok sv =
     ((\<forall>a b. a \<le> b \<and> 0 < b \<longrightarrow> 0 \<le> float_div sv a b \<and> float_div sv a b \<le> 1) \<and>
      (\<forall>x. 0 \<le> x \<and> x \<le> 1 \<longrightarrow> 0 \<le> float_mul sv x 100 \<and> float_mul sv x 100 \<le> 100) \<and>
      (\<forall>x. 0 \<le> x \<and> x \<le> 100 \<longrightarrow> 0 \<le> round1 sv x \<and> round1 sv x \<le> 100) \<and>
      float_div sv 0 1 = 0 \<and> float_mul sv 0 100 = 0 \<and> round1 sv 0 = 0)"

section \<open>The summarizer: \<^verbatim>\<open>extractive_summary\<close>\<close>

definition doc_words :: "services \<Rightarrow> string \<Rightarrow> string list" where
  \<comment> \<open>\<^verbatim>\<open>[w.lower() for w in word_tokenize(text) if w.isalnum() and w.lower() not in stop_words]\<close>\<close>
  "doc_words sv text =
     map (lower sv)
       (filter (\<lambda>w. isalnum sv w \<and> lower sv w \<notin> stop_words sv) (word_tokenize sv text))"

definition sent_words :: "services \<Rightarrow> string \<Rightarrow> string list" where
  \<comment> \<open>\<^verbatim>\<open>[w.lower() for w in word_tokenize(sent) if w.isalnum()]\<close>\<close>
  "sent_words sv sent = map (lower sv) (filter (isalnum sv) (word_tokenize sv sent))"

definition sent_score :: "services \<Rightarrow> counter \<Rightarrow> string list \<Rightarrow> rat" where
  \<comment> \<open>\<^verbatim>\<open>sum(freq[w] for w in sent_words if w in freq) / len(sent_words)\<close>\<close>
  "sent_score sv freq sw =
     float_div sv (sum_list (map (counter_get freq) (filter (\<lambda>w. counter_mem w freq) sw)))
       (length sw)"

fun score_loop ::
  "services \<Rightarrow> counter \<Rightarrow> string list \<Rightarrow> (string \<times> rat) list \<Rightarrow> (string \<times> rat) list" where
  "score_loop sv freq [] scores = scores"
| "score_loop sv freq (sent # rest) scores =
     (let sw = sent_words sv sent in
      if sw = [] then score_loop sv freq rest scores
      else score_loop sv freq rest (AList.update sent (sent_score sv freq sw) scores))"

definition sentence_scores :: "services \<Rightarrow> string \<Rightarrow> (string \<times> rat) list" where
  \<comment> \<open>the dictionary \<^verbatim>\<open>scores\<close> after the loop\<close>
  "sentence_scores sv text =
     score_loop sv (Counter (doc_words sv text)) (sent_tokenize sv text) []"

definition top_sentences :: "services \<Rightarrow> string \<Rightarrow> int \<Rightarrow> string list" where
  \<comment> \<open>\<^verbatim>\<open>sorted(scores, key=scores.get, reverse=True)[:num_sents]\<close>\<close>
  "top_sentences sv text num_sents =
     (let scores = sentence_scores sv text in
      py_slice_to num_sents (sorted_desc (map_of scores) (map fst scores)))"

definition summary_sentences :: "services \<Rightarrow> string \<Rightarrow> int \<Rightarrow> string list" where
  \<comment> \<open>the list that \<^verbatim>\<open>extractive_summary\<close> joins, on either branch\<close>
  "summary_sentences sv text num_sents =
     (let sentences = sent_tokenize sv text in
      if int (length sentences) \<le> num_sents then sentences
      else top_sentences sv text num_sents)"

definition extractive_summary :: "services \<Rightarrow> string \<Rightarrow> int \<Rightarrow> string" where
  "extractive_summary sv text num_sents = join '' '' (summary_sentences sv text num_sents)"

section \<open>The concept extractor: \<^verbatim>\<open>extract_concepts\<close>\<close>




section \<open>The source of randomness\<close>

text \<open>
  The module \<^verbatim>\<open>random\<close> is modelled by a tape of natural numbers, read one number
  for each draw; a tape that has run out reads 0. \<open>randbelow n\<close> is a number below
  \<open>n\<close>, and every such number comes from some tape. \<^verbatim>\<open>choice\<close>,
  \<^verbatim>\<open>sample\<close> and \<^verbatim>\<open>shuffle\<close> are CPython's algorithms over it.
\<close>

type_synonym rng = "nat list"

definition randbelow :: "nat \<Rightarrow> rng \<Rightarrow> nat \<times> rng" where
  "randbelow n r = (case r of [] \<Rightarrow> (0, []) | x # r' \<Rightarrow> (x mod n, r'))"

definition choice :: "'a list \<Rightarrow> rng \<Rightarrow> 'a \<times> rng" where
  \<comment> \<open>\<^verbatim>\<open>seq[self._randbelow(len(seq))]\<close>; the program calls it on non-empty lists only\<close>
  "choice xs r = (let (i, r') = randbelow (length xs) r in (xs ! i, r'))"

fun sample_loop :: "'a list \<Rightarrow> nat \<Rightarrow> nat \<Rightarrow> rng \<Rightarrow> 'a list \<times> rng" where
  \<comment> \<open>\<open>m\<close> is \<^verbatim>\<open>n - i\<close>, the size of the part of the pool still to draw from:
      \<^verbatim>\<open>j = randbelow(n - i); result[i] = pool[j]; pool[j] = pool[n - i - 1]\<close>\<close>
  "sample_loop pool m 0 r = ([], r)"
| "sample_loop pool m (Suc k) r =
     (let (j, r1) = randbelow m r;
          x = pool ! j;
          (xs, r2) = sample_loop (pool[j := pool ! (m - 1)]) (m - 1) k r1
      in (x # xs, r2))"

definition sample :: "'a list \<Rightarrow> nat \<Rightarrow> rng \<Rightarrow> 'a list \<times> rng" where
  \<comment> \<open>\<^verbatim>\<open>random.sample(population, k)\<close>, for \<open>k\<close> at most the size of the population\<close>
  "sample population k r = sample_loop population (length population) k r"

fun shuffle_loop :: "nat \<Rightarrow> 'a list \<Rightarrow> rng \<Rightarrow> 'a list \<times> rng" where
  \<comment> \<open>\<^verbatim>\<open>for i in reversed(range(1, len(x))): j = randbelow(i + 1); x[i], x[j] = x[j], x[i]\<close>\<close>
  "shuffle_loop 0 xs r = (xs, r)"
| "shuffle_loop (Suc i) xs r =
     (let (j, r1) = randbelow (Suc i + 1) r
      in shuffle_loop i (xs[Suc i := xs ! j, j := xs ! Suc i]) r1)"

definition shuffle :: "'a list \<Rightarrow> rng \<Rightarrow> 'a list \<times> rng" where
  "shuffle xs r = shuffle_loop (length xs - 1) xs r"

section \<open>The quiz synthesizer: \<^verbatim>\<open>generate_quiz\<close>\<close>

datatype py_error = ValueError | KeyError | AttributeError

text \<open>
  A quiz item is a dictionary with the keys \<^verbatim>\<open>type\<close>, \<^verbatim>\<open>question\<close>,
  \<^verbatim>\<open>answer\<close>, \<^verbatim>\<open>options\<close> and \<^verbatim>\<open>correct_idx\<close>; a short-answer item
  has the first three only. An absent key is \<open>None\<close>.
\<close>

record quiz_item =
  item_type :: "string option"
  item_question :: "string option"
  item_answer :: "string option"
  item_options :: "string list option"
  item_correct_idx :: "int option"

definition sub_first_ci :: "services \<Rightarrow> string \<Rightarrow> string \<Rightarrow> string \<Rightarrow> string" where
  \<comment> \<open>\<^verbatim>\<open>re.compile(re.escape(target), re.IGNORECASE).sub(repl, s, count=1)\<close>: the
      leftmost match of the target, if there is one, is replaced\<close>
  "sub_first_ci sv target repl s =
     (case search_ci sv target s of
        None \<Rightarrow> s
      | Some (start, n) \<Rightarrow> take start s @ repl @ drop (start + n) s)"

definition list_index :: "'a list \<Rightarrow> 'a \<Rightarrow> py_error + nat" where
  \<comment> \<open>\<^verbatim>\<open>xs.index(x)\<close>\<close>
  "list_index xs x = (if x \<in> set xs then Inr (first_index xs x) else Inl ValueError)"

definition lexicon :: "string list" where
  "lexicon = [''system'', ''method'', ''data'', ''model'', ''process'', ''example'', ''result'']"

definition build_item ::
  "services \<Rightarrow> string \<Rightarrow> string \<Rightarrow> string \<Rightarrow> rng \<Rightarrow> py_error + (quiz_item \<times> rng)" where
  \<comment> \<open>the body of the loop from \<^verbatim>\<open>pattern = ...\<close> on, for the question type, the
      sentence and the target that were drawn\<close>
  "build_item sv q_type sent target r =
     (let question_text = strip sv (sub_first_ci sv target ''____'' sent);
          ans_clean = strip_punct target
      in if q_type = ''mcq'' then
           (let (distractors, r1) = sample lexicon 3 r;
                correct = capitalize sv ans_clean;
                (options, r2) = shuffle (correct # distractors) r1
            in case list_index options correct of
                 Inl e \<Rightarrow> Inl e
               | Inr idx \<Rightarrow>
                   Inr (\<lparr>item_type = Some ''mcq'', item_question = Some question_text,
                         item_answer = Some correct, item_options = Some options,
                         item_correct_idx = Some (int idx)\<rparr>, r2))
         else
           Inr (\<lparr>item_type = Some ''short'', item_question = Some question_text,
                 item_answer = Some (lower sv ans_clean), item_options = None,
                 item_correct_idx = None\<rparr>, r))"

text \<open>
  The loop of \<^verbatim>\<open>generate_quiz\<close>. The list \<open>quiz\<close> holds, beside each item, the
  sentence it was built from: the program does not store it, the properties of the quiz
  speak of it.
\<close>

fun quiz_loop ::
  "services \<Rightarrow> string list \<Rightarrow> string list \<Rightarrow> int \<Rightarrow> nat list \<Rightarrow> string set
     \<Rightarrow> (string \<times> quiz_item) list \<Rightarrow> rng \<Rightarrow> py_error + (string \<times> quiz_item) list" where
  "quiz_loop sv sentences nouns num_questions [] used_sentences quiz r = Inr quiz"
| "quiz_loop sv sentences nouns num_questions (i # rest) used_sentences quiz r =
     (let available = filter (\<lambda>s. s \<notin> used_sentences) sentences
      in if available = [] then Inr quiz
         else
           (let (sent, r1) = choice available r;
                q_type = (if int i < num_questions div 2 then ''mcq'' else ''short'');
                (target, r2) = (if nouns \<noteq> [] then choice nouns r1 else (''concept'', r1))
            in case build_item sv q_type sent target r2 of
                 Inl e \<Rightarrow> Inl e
               | Inr (item, r3) \<Rightarrow>
                   quiz_loop sv sentences nouns num_questions rest (insert sent used_sentences)
                     (quiz @ [(sent, item)]) r3))"

definition quiz_nouns :: "services \<Rightarrow> string \<Rightarrow> string list" where
  \<comment> \<open>\<^verbatim>\<open>list(set([w for w, pos in pos_tag(word_tokenize(summary.lower())) if pos.startswith('NN')]))\<close>\<close>
  "quiz_nouns sv summary =
     set_list sv (map fst (filter (\<lambda>(w, pos). startswith pos ''NN'')
                    (pos_tag sv (word_tokenize sv (lower sv summary)))))"

definition generate_quiz_sources ::
  "services \<Rightarrow> string \<Rightarrow> int \<Rightarrow> rng \<Rightarrow> py_error + (string \<times> quiz_item) list" where
  "generate_quiz_sources sv summary num_questions r =
     (let sentences = sent_tokenize sv summary
      in if sentences = [] then Inr []
         else quiz_loop sv sentences (quiz_nouns sv summary) num_questions
                [0..<nat num_questions] {} [] r)"

definition generate_quiz ::
  "services \<Rightarrow> string \<Rightarrow> int \<Rightarrow> rng \<Rightarrow> py_error + quiz_item list" where
  "generate_quiz sv summary num_questions r =
     (case generate_quiz_sources sv summary num_questions r of
        Inl e \<Rightarrow> Inl e | Inr quiz \<Rightarrow> Inr (map snd quiz))"

section \<open>The scorer: \<^verbatim>\<open>feedback_api\<close>\<close>

text \<open>
  The answers arrive as a JSON array. A JSON number with a fraction is a Python float,
  given by its value.
\<close>

datatype json =
  JNull | JBool bool | JInt int | JReal rat | JStr string
  | JArray "json list" | JObject "(string \<times> json) list"

fun py_eq_int :: "json \<Rightarrow> int \<Rightarrow> bool" where
  \<comment> \<open>\<^verbatim>\<open>user_ans == c\<close> for an integer \<open>c\<close>\<close>
  "py_eq_int (JInt k) c = (k = c)"
| "py_eq_int (JBool b) c = ((if b then 1 else 0) = c)"
| "py_eq_int (JReal x) c = (x = of_int c)"
| "py_eq_int _ c = False"

fun truthy :: "json \<Rightarrow> bool" where
  "truthy JNull = False"
| "truthy (JBool b) = b"
| "truthy (JInt k) = (k \<noteq> 0)"
| "truthy (JReal x) = (x \<noteq> 0)"
| "truthy (JStr s) = (s \<noteq> [])"
| "truthy (JArray xs) = (xs \<noteq> [])"
| "truthy (JObject kvs) = (kvs \<noteq> [])"

definition grade_item :: "services \<Rightarrow> quiz_item \<Rightarrow> json \<Rightarrow> py_error + bool" where
  "grade_item sv q user_ans =
     (let qtype = (case item_type q of None \<Rightarrow> ''mcq'' | Some t \<Rightarrow> t)
      in if qtype = ''mcq'' then
           (case item_correct_idx q of
              None \<Rightarrow> Inl KeyError
            | Some c \<Rightarrow> Inr (py_eq_int user_ans c))
         else if qtype = ''short'' then
           (case (if truthy user_ans then user_ans else JStr []) of
              JStr s \<Rightarrow>
                (let user_text = lower sv (strip sv s)
                 in case item_answer q of
                      None \<Rightarrow> Inl KeyError
                    | Some a \<Rightarrow> Inr (sublist a user_text \<and> length user_text > 0))
            | _ \<Rightarrow> Inl AttributeError)
         else Inr False)"

definition answer_or_concept :: "quiz_item \<Rightarrow> string" where
  \<comment> \<open>\<^verbatim>\<open>q.get('answer', 'concept')\<close>\<close>
  "answer_or_concept q = (case item_answer q of None \<Rightarrow> ''concept'' | Some a \<Rightarrow> a)"

fun feedback_loop ::
  "services \<Rightarrow> quiz_item list \<Rightarrow> nat \<Rightarrow> json list \<Rightarrow> nat \<times> nat list \<times> string list
     \<Rightarrow> py_error + (nat \<times> nat list \<times> string list)" where
  \<comment> \<open>the state is \<^verbatim>\<open>(score, per_question, weak_areas)\<close>\<close>
  "feedback_loop sv quiz i [] st = Inr st"
| "feedback_loop sv quiz i (user_ans # rest) (score, per_question, weak_areas) =
     (if i \<ge> length quiz then Inr (score, per_question, weak_areas)
      else
        (let q = quiz ! i
         in case grade_item sv q user_ans of
              Inl e \<Rightarrow> Inl e
            | Inr is_correct \<Rightarrow>
                feedback_loop sv quiz (i + 1) rest
                  (if is_correct then (score + 1, per_question @ [1], weak_areas)
                   else (score, per_question @ [0], weak_areas @ [answer_or_concept q]))))"

record stats =
  score :: nat
  total :: nat
  percentage :: rat
  per_question :: "nat list"
  weak_areas :: "string list"

definition feedback :: "services \<Rightarrow> quiz_item list \<Rightarrow> json list \<Rightarrow> py_error + stats" where
  "feedback sv quiz answers =
     (case feedback_loop sv quiz 0 answers (0, [], []) of
        Inl e \<Rightarrow> Inl e
      | Inr (sc, pq, weak) \<Rightarrow>
          (let tot = (if length pq = 0 then 1 else length pq)
           in Inr \<lparr>score = sc, total = tot,
                   percentage = round1 sv (float_mul sv (float_div sv sc tot) 100),
                   per_question = pq,
                   weak_areas = py_slice_to 5 (set_list sv weak)\<rparr>))"

definition info_item :: quiz_item where
  \<comment> \<open>the placeholder \<^verbatim>\<open>quiz_page\<close> stores when the quiz is empty\<close>
  "info_item =
     \<lparr>item_type = Some ''info'',
      item_question = Some ''Summary too short to generate quiz. Add more detailed notes.'',
      item_answer = Some [], item_options = Some [], item_correct_idx = Some (- 1)\<rparr>"

section \<open>What the specification says of the summarizer\<close>

definition term_frequency :: "services \<Rightarrow> string \<Rightarrow> string \<Rightarrow> nat" where
  \<comment> \<open>the number of occurrences of \<open>w\<close> among the alphanumeric, lowercased,
      non-stop-word tokens of the document\<close>
  "term_frequency sv text w =
     count_list
       (map (lower sv)
          (filter (\<lambda>t. isalnum sv t \<and> lower sv t \<notin> stop_words sv) (word_tokenize sv text))) w"

definition normalized_score :: "services \<Rightarrow> string \<Rightarrow> string \<Rightarrow> rat" where
  \<comment> \<open>the sum of the document frequencies of the sentence's alphanumeric lowercase tokens,
      divided by the number of those tokens, as a float\<close>
  "normalized_score sv text sent =
     float_div sv
       (sum_list (map (term_frequency sv text)
          (map (lower sv) (filter (isalnum sv) (word_tokenize sv sent)))))
       (length (filter (isalnum sv) (word_tokenize sv sent)))"

definition scorable :: "services \<Rightarrow> string \<Rightarrow> bool" where
  \<comment> \<open>the sentence has at least one alphanumeric token\<close>
  "scorable sv sent = (filter (isalnum sv) (word_tokenize sv sent) \<noteq> [])"

section \<open>A small instance of the libraries\<close>

text \<open>
  To run the model on concrete text the parameters need values. The tokenizers of this
  instance split at white space, end a sentence at a word whose last character is a full
  stop, an exclamation mark or a question mark, make a token of every run of letters and
  digits and of every other character, and tag the words of a short list as nouns. Its
  string methods know the letters, digits and white space of ASCII and no other; its
  search compares in lower case; its arithmetic is exact, and rounds a tie to the even
  neighbour.
\<close>

definition is_upper :: "char \<Rightarrow> bool" where
  "is_upper c = (c \<in> set ''ABCDEFGHIJKLMNOPQRSTUVWXYZ'')"

definition is_lower :: "char \<Rightarrow> bool" where
  "is_lower c = (c \<in> set ''abcdefghijklmnopqrstuvwxyz'')"

definition is_digit :: "char \<Rightarrow> bool" where
  "is_digit c = (c \<in> set ''0123456789'')"

definition is_space :: "char \<Rightarrow> bool" where
  \<comment> \<open>tab, line feed, vertical tab, form feed, carriage return, the four separators 28 to
      31, and the blank\<close>
  "is_space c = (c \<in> set [char_of (9::nat), char_of (10::nat), char_of (11::nat),
     char_of (12::nat), char_of (13::nat), char_of (28::nat), char_of (29::nat),
     char_of (30::nat), char_of (31::nat), CHR '' ''])"

definition ascii_lower_char :: "char \<Rightarrow> char" where
  "ascii_lower_char c =
     (case map_of (zip ''ABCDEFGHIJKLMNOPQRSTUVWXYZ'' ''abcdefghijklmnopqrstuvwxyz'') c of
        None \<Rightarrow> c | Some d \<Rightarrow> d)"

definition ascii_upper_char :: "char \<Rightarrow> char" where
  "ascii_upper_char c =
     (case map_of (zip ''abcdefghijklmnopqrstuvwxyz'' ''ABCDEFGHIJKLMNOPQRSTUVWXYZ'') c of
        None \<Rightarrow> c | Some d \<Rightarrow> d)"

definition ascii_lower :: "string \<Rightarrow> string" where
  "ascii_lower s = map ascii_lower_char s"

definition ascii_isalnum :: "string \<Rightarrow> bool" where
  "ascii_isalnum s = (s \<noteq> [] \<and> list_all (\<lambda>c. is_upper c \<or> is_lower c \<or> is_digit c) s)"

definition ascii_isalpha :: "string \<Rightarrow> bool" where
  "ascii_isalpha s = (s \<noteq> [] \<and> list_all (\<lambda>c. is_upper c \<or> is_lower c) s)"

definition ascii_strip :: "string \<Rightarrow> string" where
  "ascii_strip s = strip_chars is_space s"

definition ascii_capitalize :: "string \<Rightarrow> string" where
  "ascii_capitalize s =
     (case s of [] \<Rightarrow> [] | c # cs \<Rightarrow> ascii_upper_char c # map ascii_lower_char cs)"

fun ascii_search_ci :: "string \<Rightarrow> string \<Rightarrow> (nat \<times> nat) option" where
  "ascii_search_ci target [] = (if target = [] then Some (0, 0) else None)"
| "ascii_search_ci target (c # cs) =
     (if prefix (ascii_lower target) (ascii_lower (c # cs)) then Some (0, length target)
      else map_option (\<lambda>(start, n). (Suc start, n)) (ascii_search_ci target cs))"

definition round_half_even :: "rat \<Rightarrow> int" where
  "round_half_even y =
     (let f = \<lfloor>y\<rfloor>; d = y - of_int f
      in if d < 1 / 2 then f else if 1 / 2 < d then f + 1 else if even f then f else f + 1)"

definition exact_round1 :: "rat \<Rightarrow> rat" where
  "exact_round1 x = of_int (round_half_even (x * 10)) / 10"

fun split_ws :: "string \<Rightarrow> string \<Rightarrow> string list" where
  "split_ws cur [] = (if cur = [] then [] else [cur])"
| "split_ws cur (c # cs) =
     (if is_space c then (if cur = [] then split_ws [] cs else cur # split_ws [] cs)
      else split_ws (cur @ [c]) cs)"

fun group_sents :: "string list \<Rightarrow> string list \<Rightarrow> string list" where
  "group_sents cur [] = (if cur = [] then [] else [join '' '' cur])"
| "group_sents cur (w # ws) =
     (if w \<noteq> [] \<and> last w \<in> set ''.!?'' then join '' '' (cur @ [w]) # group_sents [] ws
      else group_sents (cur @ [w]) ws)"

fun word_pieces :: "string \<Rightarrow> string \<Rightarrow> string list" where
  "word_pieces cur [] = (if cur = [] then [] else [cur])"
| "word_pieces cur (c # cs) =
     (if is_upper c \<or> is_lower c \<or> is_digit c then word_pieces (cur @ [c]) cs
      else (if cur = [] then [] else [cur])
           @ (if is_space c then [] else [[c]]) @ word_pieces [] cs)"

definition plain_nouns :: "string list" where
  "plain_nouns = [''cats'', ''dogs'', ''fish'', ''bird'', ''sky'', ''data'']"

definition plain_services :: services where
  "plain_services =
     \<lparr> sent_tokenize = (\<lambda>text. group_sents [] (split_ws [] text)),
       word_tokenize = word_pieces [],
       pos_tag = map (\<lambda>w. (w, if w \<in> set plain_nouns then ''NN'' else ''VB'')),
       stop_words = set [''the'', ''a'', ''an'', ''is'', ''are'', ''in'', ''of'', ''and''],
       isalnum = ascii_isalnum,
       isalpha = ascii_isalpha,
       lower = ascii_lower,
       capitalize = ascii_capitalize,
       strip = ascii_strip,
       search_ci = ascii_search_ci,
       float_div = (\<lambda>a b. of_nat a / of_nat b),
       float_mul = (\<lambda>x y. x * y),
       round1 = exact_round1,
       set_list = remdups \<rparr>"

section \<open>Notions used in the statements and the proofs\<close>

definition ranked :: "('a \<Rightarrow> 'k::linorder) \<Rightarrow> ('a \<Rightarrow> 'a \<Rightarrow> bool) \<Rightarrow> 'a \<Rightarrow> 'a \<Rightarrow> bool" where
  \<comment> \<open>\<open>a\<close> goes before \<open>b\<close>: larger key, or the same key and before it in the order \<open>R\<close>\<close>
  "ranked f R a b = (f b < f a \<or> (f a = f b \<and> R a b))"

definition score_ranking :: "services \<Rightarrow> string \<Rightarrow> string list" where
  \<comment> \<open>\<^verbatim>\<open>sorted(scores, key=scores.get, reverse=True)\<close>, before the slice\<close>
  "score_ranking sv text =
     sorted_desc (map_of (sentence_scores sv text)) (map fst (sentence_scores sv text))"



definition quiz_targets :: "services \<Rightarrow> string \<Rightarrow> string list" where
  \<comment> \<open>the terms a blank can be drawn from: the nouns, or \<^verbatim>\<open>'concept'\<close> when there are none\<close>
  "quiz_targets sv summary =
     (if quiz_nouns sv summary \<noteq> [] then quiz_nouns sv summary else [''concept''])"

definition mcq_integrity :: "services \<Rightarrow> string list \<Rightarrow> quiz_item \<Rightarrow> bool" where
  \<comment> \<open>four distinct options; the answer is the capitalized canonical form of one of the
      targets, occurs once among the options, and the stored index is its position\<close>
  "mcq_integrity sv targets item =
     (case (item_answer item, item_options item, item_correct_idx item) of
        (Some correct, Some opts, Some idx) \<Rightarrow>
          length opts = 4 \<and> distinct opts \<and>
          correct \<in> set (map (\<lambda>t. capitalize sv (strip_punct t)) targets) \<and>
          count_list opts correct = 1 \<and>
          0 \<le> idx \<and> nat idx < 4 \<and> opts ! nat idx = correct \<and>
          nat idx = first_index opts correct
      | _ \<Rightarrow> False)"

text \<open>
  The loop of the scorer, seen as a walk over the pairs of an item and its answer; the
  proofs go through it.
\<close>

fun grade_pairs ::
  "services \<Rightarrow> (quiz_item \<times> json) list \<Rightarrow> nat \<times> nat list \<times> string list
     \<Rightarrow> py_error + (nat \<times> nat list \<times> string list)" where
  "grade_pairs sv [] st = Inr st"
| "grade_pairs sv ((q, user_ans) # ps) (sc, pq, weak) =
     (case grade_item sv q user_ans of
        Inl e \<Rightarrow> Inl e
      | Inr is_correct \<Rightarrow>
          grade_pairs sv ps
            (if is_correct then (sc + 1, pq @ [1], weak)
             else (sc, pq @ [0], weak @ [answer_or_concept q])))"

definition stored_item :: "services \<Rightarrow> quiz_item \<Rightarrow> bool" where
  \<comment> \<open>the keys an item of its type has when \<^verbatim>\<open>quiz_page\<close> stores it; the key of a
      short-answer item is in lower case\<close>
  "stored_item sv q =
     (case item_type q of
        None \<Rightarrow> False
      | Some t \<Rightarrow>
          if t = ''mcq'' then item_correct_idx q \<noteq> None \<and> item_answer q \<noteq> None
          else if t = ''short'' then
            (case item_answer q of None \<Rightarrow> False | Some key \<Rightarrow> lower sv key = key)
          else item_answer q \<noteq> None)"

definition text_or_empty :: "json \<Rightarrow> bool" where
  \<comment> \<open>a submitted text: a string, or a value that \<^verbatim>\<open>user_ans or ""\<close> replaces by the
      empty string\<close>
  "text_or_empty a = (case a of JStr s \<Rightarrow> True | _ \<Rightarrow> \<not> truthy a)"

text \<open>A stored quiz and a list of answers, one answer more than there are items.\<close>

definition demo_quiz :: "quiz_item list" where
  "demo_quiz =
     [\<lparr>item_type = Some ''mcq'', item_question = Some ''____ purr.'',
       item_answer = Some ''Cats'',
       item_options = Some [''system'', ''result'', ''example'', ''Cats''],
       item_correct_idx = Some 3\<rparr>,
      \<lparr>item_type = Some ''short'', item_question = Some ''____ bark.'',
       item_answer = Some ''dogs'', item_options = None, item_correct_idx = None\<rparr>,
      \<lparr>item_type = Some ''short'', item_question = Some ''____ swim.'',
       item_answer = Some ''fish'', item_options = None, item_correct_idx = None\<rparr>]"

definition demo_answers :: "json list" where
  "demo_answers = [JInt 3, JStr ''  The DOGS do '', JNull, JInt 5]"

section \<open>Properties of sorting, first occurrences and counters\<close>

subsection \<open>Sorting\<close>

lemma set_insort_desc: "set (insort_desc f x ys) = insert x (set ys)"
  by (induction ys) auto


lemma distinct_insort_desc: "distinct (insort_desc f x ys) = (x \<notin> set ys \<and> distinct ys)"
  by (induction ys) (auto simp: set_insort_desc)

lemma set_sorted_desc: "set (sorted_desc f xs) = set xs"
  unfolding sorted_desc_def by (induction xs) (auto simp: set_insort_desc)


lemma distinct_sorted_desc: "distinct (sorted_desc f xs) = distinct xs"
proof (induction xs)
  case Nil
  show ?case by (simp add: sorted_desc_def)
next
  case (Cons x xs)
  have "sorted_desc f (x # xs) = insort_desc f x (sorted_desc f xs)"
    by (simp add: sorted_desc_def)
  with Cons show ?case
    by (simp add: distinct_insort_desc set_sorted_desc)
qed

lemma ranked_insort_desc:
  assumes "sorted_wrt (ranked f R) ys" and "\<forall>y\<in>set ys. R x y"
  shows "sorted_wrt (ranked f R) (insort_desc f x ys)"
  using assms
proof (induction ys)
  case Nil
  then show ?case by simp
next
  case (Cons y ys)
  show ?case
  proof (cases "f y \<le> f x")
    case True
    have "ranked f R x z" if "z \<in> set (y # ys)" for z
    proof -
      have "f z \<le> f y" using that Cons.prems(1) by (auto simp: ranked_def)
      with True have "f z \<le> f x" by simp
      moreover have "R x z" using that Cons.prems(2) by auto
      ultimately show ?thesis by (auto simp: ranked_def)
    qed
    with True Cons.prems(1) show ?thesis by simp
  next
    case False
    then have "ranked f R y x" by (auto simp: ranked_def)
    moreover have "sorted_wrt (ranked f R) (insort_desc f x ys)"
      using Cons by simp
    ultimately show ?thesis using False Cons.prems(1)
      by (auto simp: set_insort_desc)
  qed
qed

lemma ranked_sorted_desc:
  "sorted_wrt R xs \<Longrightarrow> sorted_wrt (ranked f R) (sorted_desc f xs)"
proof (induction xs)
  case Nil
  show ?case by (simp add: sorted_desc_def)
next
  case (Cons x xs)
  have eq: "sorted_desc f (x # xs) = insort_desc f x (sorted_desc f xs)"
    by (simp add: sorted_desc_def)
  from Cons have "sorted_wrt (ranked f R) (sorted_desc f xs)" by simp
  moreover from Cons.prems have "\<forall>y\<in>set (sorted_desc f xs). R x y"
    by (simp add: set_sorted_desc)
  ultimately show ?case unfolding eq by (rule ranked_insort_desc)
qed

lemma sorted_wrt_py_slice_to: "sorted_wrt P xs \<Longrightarrow> sorted_wrt P (py_slice_to n xs)"
  by (simp add: py_slice_to_def sorted_wrt_take)

lemma set_py_slice_to: "set (py_slice_to n xs) \<subseteq> set xs"
  by (auto simp: py_slice_to_def dest: in_set_takeD)

lemma distinct_py_slice_to: "distinct xs \<Longrightarrow> distinct (py_slice_to n xs)"
  by (simp add: py_slice_to_def)

subsection \<open>firsts\<close>

lemma set_firsts: "set (firsts xs) = set xs"
  by (induction xs) auto

lemma distinct_firsts: "distinct (firsts xs)"
  by (induction xs) (auto simp: set_firsts)

lemma firsts_filter: "firsts (filter P xs) = filter P (firsts xs)"
proof (induction xs)
  case Nil
  show ?case by simp
next
  case (Cons x xs)
  show ?case
  proof (cases "P x")
    case True
    with Cons show ?thesis by (simp add: conj_commute)
  next
    case False
    then have "filter P (filter (\<lambda>y. y \<noteq> x) (firsts xs)) = filter P (firsts xs)"
      by (auto intro: filter_cong)
    with False Cons show ?thesis by simp
  qed
qed

lemma first_index_Cons:
  "first_index (x # xs) y = (if y = x then 0 else Suc (first_index xs y))"
  by (simp add: first_index_def)

lemma sorted_wrt_firsts:
  "sorted_wrt (\<lambda>a b. first_index xs a < first_index xs b) (firsts xs)"
proof (induction xs)
  case Nil
  show ?case by simp
next
  case (Cons x xs)
  let ?R = "\<lambda>a b. first_index xs a < first_index xs b"
  let ?R' = "\<lambda>a b. first_index (x # xs) a < first_index (x # xs) b"
  let ?ys = "filter (\<lambda>y. y \<noteq> x) (firsts xs)"
  have "sorted_wrt ?R ?ys" using Cons by (rule sorted_wrt_filter)
  then have "sorted_wrt ?R' ?ys"
    by (rule sorted_wrt_mono_rel[rotated]) (auto simp: first_index_Cons)
  moreover have "\<forall>y\<in>set ?ys. ?R' x y" by (auto simp: first_index_Cons)
  ultimately show ?case by simp
qed

subsection \<open>Counter\<close>

lemma counter_get_add:
  "counter_get (counter_add c w) v = (if v = w then counter_get c w + 1 else counter_get c v)"
  by (simp add: counter_get_def counter_add_def update_conv')

lemma counter_mem_add:
  "counter_mem v (counter_add c w) = (v = w \<or> counter_mem v c)"
  by (simp add: counter_mem_def counter_add_def update_conv')

lemma counter_get_foldl:
  "counter_get (foldl counter_add c ws) v = counter_get c v + count_list ws v"
  by (induction ws arbitrary: c) (auto simp: counter_get_add)

lemma counter_mem_foldl:
  "counter_mem v (foldl counter_add c ws) = (counter_mem v c \<or> v \<in> set ws)"
  by (induction ws arbitrary: c) (auto simp: counter_mem_add)

lemma counter_get_Counter: "counter_get (Counter ws) v = count_list ws v"
  by (simp add: Counter_def counter_get_foldl) (simp add: counter_get_def)

lemma counter_mem_Counter: "counter_mem v (Counter ws) = (v \<in> set ws)"
  by (simp add: Counter_def counter_mem_foldl) (simp add: counter_mem_def)




lemma sum_list_count_filter:
  "sum_list (map (count_list ws) (filter (\<lambda>w. w \<in> set ws) sw)) = sum_list (map (count_list ws) sw)"
  by (induction sw) (auto simp: count_list_0_iff)

lemma sent_score_Counter:
  "sent_score sv (Counter ws) sw = float_div sv (sum_list (map (count_list ws) sw)) (length sw)"
proof -
  have "map (counter_get (Counter ws)) = map (count_list ws)"
    by (simp add: counter_get_Counter fun_eq_iff)
  then show ?thesis
    by (simp add: sent_score_def counter_mem_Counter sum_list_count_filter)
qed
section \<open>Properties of the summarizer\<close>

lemma sent_words_Nil_iff: "sent_words sv s = [] \<longleftrightarrow> \<not> scorable sv s"
  by (simp add: sent_words_def scorable_def)

lemma keys_score_loop:
  "map fst (score_loop sv fr ss acc) =
     map fst acc @ filter (\<lambda>s. s \<notin> set (map fst acc)) (firsts (filter (scorable sv) ss))"
proof (induction ss arbitrary: acc)
  case Nil
  show ?case by simp
next
  case (Cons s ss)
  let ?F = "firsts (filter (scorable sv) ss)"
  show ?case
  proof (cases "scorable sv s")
    case False
    then show ?thesis by (simp add: Cons sent_words_Nil_iff)
  next
    case sc: True
    show ?thesis
    proof (cases "s \<in> set (map fst acc)")
      case True
      then have "filter (\<lambda>v. v \<notin> set (map fst acc)) (filter (\<lambda>y. y \<noteq> s) ?F)
          = filter (\<lambda>v. v \<notin> set (map fst acc)) ?F"
        by (auto intro: filter_cong)
      with True sc show ?thesis
        by (simp add: Cons sent_words_Nil_iff update_keys)
    next
      case False
      have "filter (\<lambda>v. v \<notin> set (map fst acc @ [s])) ?F
          = filter (\<lambda>v. v \<notin> set (map fst acc)) (filter (\<lambda>y. y \<noteq> s) ?F)"
        by (auto intro: filter_cong)
      with False sc show ?thesis
        by (simp add: Cons sent_words_Nil_iff update_keys)
    qed
  qed
qed

lemma map_of_score_loop:
  "map_of (score_loop sv fr ss acc) s =
     (if s \<in> set ss \<and> scorable sv s then Some (sent_score sv fr (sent_words sv s))
      else map_of acc s)"
proof (induction ss arbitrary: acc)
  case Nil
  show ?case by simp
next
  case (Cons x ss)
  show ?case
    by (cases "scorable sv x") (auto simp: Cons sent_words_Nil_iff update_conv')
qed

lemma keys_sentence_scores:
  "map fst (sentence_scores sv text) = filter (scorable sv) (firsts (sent_tokenize sv text))"
  by (simp add: sentence_scores_def keys_score_loop firsts_filter)

lemma sent_score_normalized:
  "sent_score sv (Counter (doc_words sv text)) (sent_words sv s) = normalized_score sv text s"
  by (simp add: sent_score_Counter normalized_score_def term_frequency_def[abs_def]
      doc_words_def sent_words_def comp_def)

lemma map_of_sentence_scores:
  "map_of (sentence_scores sv text) s =
     (if s \<in> set (sent_tokenize sv text) \<and> scorable sv s
      then Some (normalized_score sv text s) else None)"
  by (simp add: sentence_scores_def map_of_score_loop sent_score_normalized)

lemma set_keys_sentence_scores:
  "set (map fst (sentence_scores sv text)) = {s \<in> set (sent_tokenize sv text). scorable sv s}"
  by (auto simp: keys_sentence_scores set_firsts)

lemma distinct_keys_sentence_scores: "distinct (map fst (sentence_scores sv text))"
  by (simp add: keys_sentence_scores distinct_firsts)

lemma top_sentences_ranking:
  "top_sentences sv text n = py_slice_to n (score_ranking sv text)"
  by (simp add: top_sentences_def score_ranking_def Let_def)

lemma set_score_ranking:
  "set (score_ranking sv text) = {s \<in> set (sent_tokenize sv text). scorable sv s}"
  unfolding score_ranking_def set_sorted_desc by (rule set_keys_sentence_scores)

lemma distinct_score_ranking: "distinct (score_ranking sv text)"
  by (simp add: score_ranking_def distinct_sorted_desc distinct_keys_sentence_scores
      del: distinct_map)

lemma length_score_ranking:
  "length (score_ranking sv text) = card {s \<in> set (sent_tokenize sv text). scorable sv s}"
  using distinct_card[OF distinct_score_ranking]
  by (simp add: set_score_ranking)

lemma ranked_score_ranking:
  "sorted_wrt
     (ranked (normalized_score sv text)
        (\<lambda>a b. first_index (sent_tokenize sv text) a < first_index (sent_tokenize sv text) b))
     (score_ranking sv text)"
proof -
  let ?sents = "sent_tokenize sv text"
  let ?R = "\<lambda>a b. first_index ?sents a < first_index ?sents b"
  have "sorted_wrt ?R (map fst (sentence_scores sv text))"
    unfolding keys_sentence_scores by (rule sorted_wrt_filter) (rule sorted_wrt_firsts)
  then have "sorted_wrt (ranked (map_of (sentence_scores sv text)) ?R) (score_ranking sv text)"
    unfolding score_ranking_def by (rule ranked_sorted_desc)
  then show ?thesis
  proof (rule sorted_wrt_mono_rel[rotated])
    fix a b
    assume "a \<in> set (score_ranking sv text)" "b \<in> set (score_ranking sv text)"
      and "ranked (map_of (sentence_scores sv text)) ?R a b"
    then show "ranked (normalized_score sv text) ?R a b"
      by (simp add: set_score_ranking map_of_sentence_scores ranked_def)
  qed
qed

lemma summary_sentences_long:
  "int (length (sent_tokenize sv text)) > n \<Longrightarrow>
     summary_sentences sv text n = py_slice_to n (score_ranking sv text)"
  by (simp add: summary_sentences_def top_sentences_ranking Let_def)

text \<open>
  Claim C1 says that the sentences of the summary keep the order they have in the document.
  On a document of three sentences with \<^verbatim>\<open>num_sents = 2\<close> the program
  returns the third sentence before the second: the claim fails there.
\<close>

theorem C1_counterexample:
  "int (length (sent_tokenize plain_services ''Red fish. Blue bird. Blue blue sky.'')) > 2 \<and>
   summary_sentences plain_services ''Red fish. Blue bird. Blue blue sky.'' 2
     = [''Blue blue sky.'', ''Blue bird.''] \<and>
   \<not> subseq (summary_sentences plain_services ''Red fish. Blue bird. Blue blue sky.'' 2)
       (sent_tokenize plain_services ''Red fish. Blue bird. Blue blue sky.'')"
proof -
  have a: "sent_tokenize plain_services ''Red fish. Blue bird. Blue blue sky.''
      = [''Red fish.'', ''Blue bird.'', ''Blue blue sky.'']"
    by code_simp
  have b: "summary_sentences plain_services ''Red fish. Blue bird. Blue blue sky.'' 2
      = [''Blue blue sky.'', ''Blue bird.'']"
    by code_simp
  show ?thesis unfolding a b by simp
qed

text \<open>
  Claim C1, amended: when the document has more sentences than \<^verbatim>\<open>num_sents\<close>, the
  sentences of the summary are in descending order of their normalized score, and
  sentences of equal score are in the order of their first appearance in the document.
\<close>

theorem summary_in_score_order:
  assumes "int (length (sent_tokenize sv text)) > n"
  shows "sorted_wrt
     (\<lambda>a b. normalized_score sv text b < normalized_score sv text a \<or>
        (normalized_score sv text a = normalized_score sv text b \<and>
         first_index (sent_tokenize sv text) a < first_index (sent_tokenize sv text) b))
     (summary_sentences sv text n)"
  using sorted_wrt_py_slice_to[OF ranked_score_ranking] assms
  by (simp add: summary_sentences_long ranked_def[abs_def])

theorem summary_in_score_order_witness:
  "int (length (sent_tokenize plain_services ''Red fish. Blue bird. Blue blue sky.'')) > 2 \<and>
   sorted_wrt
     (\<lambda>a b. normalized_score plain_services ''Red fish. Blue bird. Blue blue sky.'' b
            < normalized_score plain_services ''Red fish. Blue bird. Blue blue sky.'' a \<or>
        (normalized_score plain_services ''Red fish. Blue bird. Blue blue sky.'' a
            = normalized_score plain_services ''Red fish. Blue bird. Blue blue sky.'' b \<and>
         first_index (sent_tokenize plain_services ''Red fish. Blue bird. Blue blue sky.'') a
            < first_index (sent_tokenize plain_services ''Red fish. Blue bird. Blue blue sky.'') b))
     (summary_sentences plain_services ''Red fish. Blue bird. Blue blue sky.'' 2)"
proof -
  have h: "int (length (sent_tokenize plain_services ''Red fish. Blue bird. Blue blue sky.'')) > 2"
    by code_simp
  show ?thesis using h summary_in_score_order[OF h] by simp
qed

lemma length_py_slice_to: "0 \<le> n \<Longrightarrow> length (py_slice_to n xs) = min (nat n) (length xs)"
  by (simp add: py_slice_to_def min_def)

lemma sorted_wrt_take_drop:
  assumes "sorted_wrt P xs" and "x \<in> set (take k xs)" and "y \<in> set (drop k xs)"
  shows "P x y"
proof -
  from assms(1) have "sorted_wrt P (take k xs @ drop k xs)" by simp
  then show ?thesis using assms(2,3) unfolding sorted_wrt_append by blast
qed

lemma top_k_py_slice_to:
  assumes "sorted_wrt P xs" and "0 \<le> n"
    and "x \<in> set (py_slice_to n xs)" and "y \<in> set xs" and "y \<notin> set (py_slice_to n xs)"
  shows "P x y"
proof -
  from assms(2,3) have x: "x \<in> set (take (nat n) xs)" by (simp add: py_slice_to_def)
  from assms(2,5) have "y \<notin> set (take (nat n) xs)" by (simp add: py_slice_to_def)
  moreover from assms(4) have "y \<in> set (take (nat n) xs @ drop (nat n) xs)" by simp
  ultimately have "y \<in> set (drop (nat n) xs)" unfolding set_append by blast
  with assms(1) x show ?thesis by (rule sorted_wrt_take_drop)
qed

lemma term_frequency_Counter:
  "counter_get (Counter (doc_words sv text)) w = term_frequency sv text w"
  by (simp add: counter_get_Counter term_frequency_def doc_words_def)

lemma counter_mem_doc_words:
  "counter_mem w (Counter (doc_words sv text)) = (0 < term_frequency sv text w)"
proof -
  have "(0 < count_list xs w) = (w \<in> set xs)" for xs :: "string list"
    using count_list_0_iff[of xs w] by auto
  then show ?thesis
    by (simp only: counter_mem_Counter term_frequency_def doc_words_def)
qed

text \<open>
  Claim C2: when the document has more sentences than \<^verbatim>\<open>num_sents\<close>, the frequency
  table counts the occurrences of each word among the alphanumeric, lowercased,
  non-stop-word tokens of the document (a word is a key of the table exactly when it occurs
  there); the dictionary of scores gives each sentence that has an alphanumeric token the
  sum of the table frequencies of its alphanumeric lowercase tokens divided by the number of
  those tokens, and has no entry for any other string; and every sentence of the summary
  has an alphanumeric token and that score.
\<close>

theorem scores_as_specified:
  assumes "int (length (sent_tokenize sv text)) > n"
  shows "(\<forall>w. counter_get (Counter (doc_words sv text)) w = term_frequency sv text w) \<and>
    (\<forall>w. counter_mem w (Counter (doc_words sv text)) = (0 < term_frequency sv text w)) \<and>
    (\<forall>s. map_of (sentence_scores sv text) s =
       (if s \<in> set (sent_tokenize sv text) \<and> scorable sv s
        then Some (normalized_score sv text s) else None)) \<and>
    (\<forall>s \<in> set (summary_sentences sv text n).
       s \<in> set (sent_tokenize sv text) \<and> scorable sv s \<and>
       map_of (sentence_scores sv text) s = Some (normalized_score sv text s))"
proof -
  have "set (summary_sentences sv text n) \<subseteq> set (score_ranking sv text)"
    using assms set_py_slice_to by (simp add: summary_sentences_long)
  then have "\<forall>s \<in> set (summary_sentences sv text n).
      s \<in> set (sent_tokenize sv text) \<and> scorable sv s"
    by (auto simp: set_score_ranking)
  then show ?thesis
    by (simp add: term_frequency_Counter counter_mem_doc_words map_of_sentence_scores)
qed

theorem scores_as_specified_witness:
  "int (length (sent_tokenize plain_services ''Red fish. Blue bird. Blue blue sky.'')) > 2 \<and>
   map_of (sentence_scores plain_services ''Red fish. Blue bird. Blue blue sky.'')
     ''Blue blue sky.''
     = Some (normalized_score plain_services ''Red fish. Blue bird. Blue blue sky.''
         ''Blue blue sky.'') \<and>
   normalized_score plain_services ''Red fish. Blue bird. Blue blue sky.'' ''Blue blue sky.''
     = 7 / 3"
proof -
  have h: "int (length (sent_tokenize plain_services ''Red fish. Blue bird. Blue blue sky.'')) > 2"
    by code_simp
  have m: "''Blue blue sky.''
      \<in> set (summary_sentences plain_services ''Red fish. Blue bird. Blue blue sky.'' 2)"
    by code_simp
  have v: "normalized_score plain_services ''Red fish. Blue bird. Blue blue sky.''
      ''Blue blue sky.'' = 7 / 3"
    by code_simp
  from scores_as_specified[OF h] m
  have "map_of (sentence_scores plain_services ''Red fish. Blue bird. Blue blue sky.'')
     ''Blue blue sky.''
     = Some (normalized_score plain_services ''Red fish. Blue bird. Blue blue sky.''
         ''Blue blue sky.'')"
    by blast
  with h v show ?thesis by blast
qed

text \<open>
  Claim C3 says that exactly \<^verbatim>\<open>num_sents\<close> sentences are returned. The dictionary
  of scores has one entry for each distinct sentence string: on a document that repeats one
  sentence three times, with \<^verbatim>\<open>num_sents = 2\<close>, one sentence is returned.
\<close>

theorem C3_counterexample:
  "int (length (sent_tokenize plain_services ''Cats purr. Cats purr. Cats purr.'')) > 2 \<and>
   summary_sentences plain_services ''Cats purr. Cats purr. Cats purr.'' 2 = [''Cats purr.''] \<and>
   length (summary_sentences plain_services ''Cats purr. Cats purr. Cats purr.'' 2) \<noteq> 2"
proof -
  have a: "int (length (sent_tokenize plain_services ''Cats purr. Cats purr. Cats purr.'')) > 2"
    by code_simp
  have b: "summary_sentences plain_services ''Cats purr. Cats purr. Cats purr.'' 2
      = [''Cats purr.'']"
    by code_simp
  show ?thesis using a unfolding b by simp
qed

text \<open>
  Claim C3, amended: when the document has more sentences than \<^verbatim>\<open>num_sents\<close>, which is
  not negative, the summary has as many sentences as the smaller of \<^verbatim>\<open>num_sents\<close>
  and the number of distinct sentences with an alphanumeric token; they are distinct, each
  is such a sentence of the document, and the normalized score of each is greater than or
  equal to that of every such sentence that was not returned.
\<close>

theorem summary_top_k:
  assumes "int (length (sent_tokenize sv text)) > n" and "0 \<le> n"
  shows "length (summary_sentences sv text n)
       = min (nat n) (card {s \<in> set (sent_tokenize sv text). scorable sv s}) \<and>
     distinct (summary_sentences sv text n) \<and>
     set (summary_sentences sv text n) \<subseteq> {s \<in> set (sent_tokenize sv text). scorable sv s} \<and>
     (\<forall>s \<in> set (summary_sentences sv text n). \<forall>t \<in> set (sent_tokenize sv text).
        scorable sv t \<and> t \<notin> set (summary_sentences sv text n) \<longrightarrow>
        normalized_score sv text t \<le> normalized_score sv text s)"
proof -
  let ?L = "score_ranking sv text"
  have eq: "summary_sentences sv text n = py_slice_to n ?L"
    using assms(1) by (rule summary_sentences_long)
  have len: "length (py_slice_to n ?L)
      = min (nat n) (card {s \<in> set (sent_tokenize sv text). scorable sv s})"
    using assms(2) by (simp add: length_py_slice_to length_score_ranking)
  have dist: "distinct (py_slice_to n ?L)"
    by (rule distinct_py_slice_to) (rule distinct_score_ranking)
  have sub: "set (py_slice_to n ?L) \<subseteq> {s \<in> set (sent_tokenize sv text). scorable sv s}"
    using set_py_slice_to[of n ?L] by (simp add: set_score_ranking)
  have top: "normalized_score sv text t \<le> normalized_score sv text s"
    if "s \<in> set (py_slice_to n ?L)" and "t \<in> set (sent_tokenize sv text)"
      and "scorable sv t" and "t \<notin> set (py_slice_to n ?L)" for s t
  proof -
    from that(2,3) have "t \<in> set ?L" by (simp add: set_score_ranking)
    then have "ranked (normalized_score sv text)
        (\<lambda>a b. first_index (sent_tokenize sv text) a < first_index (sent_tokenize sv text) b) s t"
      by (rule top_k_py_slice_to[OF ranked_score_ranking assms(2) that(1) _ that(4)])
    then show ?thesis by (auto simp: ranked_def)
  qed
  from len dist sub top show ?thesis unfolding eq by blast
qed

theorem summary_top_k_witness:
  "int (length (sent_tokenize plain_services ''Red fish. Blue bird. Blue blue sky.'')) > 2 \<and>
   (0::int) \<le> 2 \<and>
   length (summary_sentences plain_services ''Red fish. Blue bird. Blue blue sky.'' 2) = 2 \<and>
   normalized_score plain_services ''Red fish. Blue bird. Blue blue sky.'' ''Red fish.''
     \<le> normalized_score plain_services ''Red fish. Blue bird. Blue blue sky.'' ''Blue bird.''"
proof -
  let ?t = "''Red fish. Blue bird. Blue blue sky.''"
  have h: "int (length (sent_tokenize plain_services ?t)) > 2"
    by code_simp
  have z: "(0::int) \<le> 2" by simp
  have l: "length (summary_sentences plain_services ?t 2) = 2" by code_simp
  have a: "''Blue bird.'' \<in> set (summary_sentences plain_services ?t 2)" by code_simp
  have b: "''Red fish.'' \<in> set (sent_tokenize plain_services ?t)" by code_simp
  have c: "scorable plain_services ''Red fish.''" by code_simp
  have d: "''Red fish.'' \<notin> set (summary_sentences plain_services ?t 2)" by code_simp
  from summary_top_k[OF h z] a b c d
  have "normalized_score plain_services ?t ''Red fish.''
     \<le> normalized_score plain_services ?t ''Blue bird.''"
    by blast
  with h l show ?thesis by simp
qed

text \<open>
  Claim C10: a document with more sentences than \<^verbatim>\<open>num_sents\<close>, none of which has an
  alphanumeric token, gets the empty summary; and there is such a document, not empty, of
  three sentences, for which \<^verbatim>\<open>num_sents = 2\<close> gives fewer than two sentences and
  the empty string.
\<close>

theorem summary_can_be_empty:
  "(int (length (sent_tokenize sv text)) > n \<and>
      (\<forall>s \<in> set (sent_tokenize sv text). \<not> scorable sv s)
    \<longrightarrow> summary_sentences sv text n = [] \<and> extractive_summary sv text n = []) \<and>
   (''... !!! ???'' \<noteq> [] \<and>
    int (length (sent_tokenize plain_services ''... !!! ???'')) > 2 \<and>
    int (length (summary_sentences plain_services ''... !!! ???'' 2)) < 2 \<and>
    extractive_summary plain_services ''... !!! ???'' 2 = [])"
proof -
  have gen: "summary_sentences sv text n = [] \<and> extractive_summary sv text n = []"
    if long: "int (length (sent_tokenize sv text)) > n"
      and none: "\<forall>s \<in> set (sent_tokenize sv text). \<not> scorable sv s"
  proof -
    from none have "set (score_ranking sv text) = {}"
      by (auto simp: set_score_ranking)
    then have "score_ranking sv text = []" by simp
    then have "summary_sentences sv text n = []"
      using long by (simp add: summary_sentences_long py_slice_to_def)
    then show ?thesis by (simp add: extractive_summary_def)
  qed
  have a: "int (length (sent_tokenize plain_services ''... !!! ???'')) > 2" by code_simp
  have b: "summary_sentences plain_services ''... !!! ???'' 2 = []" by code_simp
  have c: "extractive_summary plain_services ''... !!! ???'' 2 = []" by code_simp
  from gen a c show ?thesis unfolding b by auto
qed

theorem summary_can_be_empty_witness:
  "int (length (sent_tokenize plain_services ''?! ... !!! ???'')) > 3 \<and>
   list_all (\<lambda>s. \<not> scorable plain_services s)
     (sent_tokenize plain_services ''?! ... !!! ???'') \<and>
   extractive_summary plain_services ''?! ... !!! ???'' 3 = []"
proof -
  have a: "int (length (sent_tokenize plain_services ''?! ... !!! ???'')) > 3" by code_simp
  have b: "list_all (\<lambda>s. \<not> scorable plain_services s)
      (sent_tokenize plain_services ''?! ... !!! ???'')"
    by code_simp
  then have b': "\<forall>s \<in> set (sent_tokenize plain_services ''?! ... !!! ???'').
      \<not> scorable plain_services s"
    by (simp only: list_all_iff)
  from summary_can_be_empty[of 3 plain_services "''?! ... !!! ???''"] a b'
  have "extractive_summary plain_services ''?! ... !!! ???'' 3 = []" by blast
  with a b show ?thesis by blast
qed
section \<open>Properties of the concept extractor\<close>









section \<open>Properties of the quiz synthesizer\<close>

subsection \<open>Drawing at random\<close>

lemma randbelow_less: "0 < n \<Longrightarrow> fst (randbelow n r) < n"
  by (cases r) (simp_all add: randbelow_def)

lemma choice_mem: "xs \<noteq> [] \<Longrightarrow> fst (choice xs r) \<in> set xs"
  using randbelow_less[of "length xs" r]
  by (simp add: choice_def case_prod_beta)

lemma sample_step_mset:
  assumes "j < m" and "m \<le> length pool"
  shows "mset (pool ! j # take (m - 1) (pool[j := pool ! (m - 1)])) = mset (take m pool)"
proof -
  from assms obtain m' where m: "m = Suc m'" by (cases m) auto
  with assms have m': "m' < length pool" by simp
  have tk: "take m pool = take m' pool @ [pool ! m']"
    unfolding m using m' by (rule take_Suc_conv_app_nth)
  show ?thesis
  proof (cases "j = m'")
    case True
    then show ?thesis by (simp add: m tk[unfolded m])
  next
    case False
    with assms m have j: "j < m'" by simp
    with m' have jl: "j < length (take m' pool)" by simp
    have nj: "take m' pool ! j = pool ! j" using j by simp
    have "mset ((take m' pool)[j := pool ! m'])
        = add_mset (pool ! m') (mset (take m' pool) - {#pool ! j#})"
      using mset_update[OF jl, of "pool ! m'"] by (simp only: nj)
    moreover have "pool ! j \<in># mset (take m' pool)"
      using nth_mem_mset[OF jl] by (simp only: nj)
    then have "add_mset (pool ! j) (mset (take m' pool) - {#pool ! j#}) = mset (take m' pool)"
      by simp
    ultimately have "mset (pool ! j # (take m' pool)[j := pool ! m'])
        = add_mset (pool ! m') (mset (take m' pool))"
      by (simp add: add_mset_commute)
    then show ?thesis
      by (simp add: m tk[unfolded m] take_update_swap)
  qed
qed

lemma sample_loop_distinct:
  assumes "k \<le> m" and "m \<le> length pool" and "distinct (take m pool)"
  shows "length (fst (sample_loop pool m k r)) = k \<and>
    distinct (fst (sample_loop pool m k r)) \<and>
    set (fst (sample_loop pool m k r)) \<subseteq> set (take m pool)"
  using assms
proof (induction k arbitrary: pool m r)
  case 0
  show ?case by simp
next
  case (Suc k)
  obtain j r1 where jr: "randbelow m r = (j, r1)" by (cases "randbelow m r")
  let ?pool' = "pool[j := pool ! (m - 1)]"
  obtain xs r2 where rec: "sample_loop ?pool' (m - 1) k r1 = (xs, r2)"
    by (cases "sample_loop ?pool' (m - 1) k r1")
  from Suc.prems(1) have mpos: "0 < m" by simp
  with randbelow_less[of m r] jr have j: "j < m" by simp
  have ms: "mset (pool ! j # take (m - 1) ?pool') = mset (take m pool)"
    using j Suc.prems(2) by (rule sample_step_mset)
  then have d: "distinct (pool ! j # take (m - 1) ?pool')"
    using Suc.prems(3) mset_eq_imp_distinct_iff by blast
  have st: "set (pool ! j # take (m - 1) ?pool') = set (take m pool)"
    using ms by (rule mset_eq_setD)
  have "length (fst (sample_loop ?pool' (m - 1) k r1)) = k \<and>
    distinct (fst (sample_loop ?pool' (m - 1) k r1)) \<and>
    set (fst (sample_loop ?pool' (m - 1) k r1)) \<subseteq> set (take (m - 1) ?pool')"
    using Suc.prems d by (intro Suc.IH) auto
  with rec have ih: "length xs = k" "distinct xs" "set xs \<subseteq> set (take (m - 1) ?pool')"
    by simp_all
  have res: "fst (sample_loop pool m (Suc k) r) = pool ! j # xs"
    using jr rec by simp
  from ih d st show ?case unfolding res by auto
qed

lemma sample_distinct:
  assumes "k \<le> length population" and "distinct population"
  shows "length (fst (sample population k r)) = k \<and>
    distinct (fst (sample population k r)) \<and>
    set (fst (sample population k r)) \<subseteq> set population"
  using sample_loop_distinct[of k "length population" population r] assms
  by (simp add: sample_def)

lemma shuffle_loop_mset:
  "i < length xs \<Longrightarrow> mset (fst (shuffle_loop i xs r)) = mset xs"
proof (induction i arbitrary: xs r)
  case 0
  show ?case by simp
next
  case (Suc i)
  obtain j r1 where jr: "randbelow (Suc i + 1) r = (j, r1)"
    by (cases "randbelow (Suc i + 1) r")
  with randbelow_less[of "Suc i + 1" r] have "j < Suc i + 1" by simp
  with Suc.prems have j: "j < length xs" by simp
  let ?ys = "xs[Suc i := xs ! j, j := xs ! Suc i]"
  have "mset ?ys = mset xs" using j Suc.prems by (rule mset_swap)
  moreover have "mset (fst (shuffle_loop i ?ys r1)) = mset ?ys"
    using Suc.prems by (intro Suc.IH) simp
  ultimately show ?case using jr by simp
qed

lemma shuffle_mset: "mset (fst (shuffle xs r)) = mset xs"
proof (cases xs)
  case Nil
  then show ?thesis by (simp add: shuffle_def)
next
  case (Cons x xs')
  then show ?thesis unfolding shuffle_def by (intro shuffle_loop_mset) simp
qed

subsection \<open>Capitals and positions\<close>

lemma capitalize_not_in_lexicon:
  assumes "capitalize_ok sv"
  shows "capitalize sv s \<notin> set lexicon"
proof
  assume m: "capitalize sv s \<in> set lexicon"
  then have "capitalize sv s \<noteq> [] \<and> hd (capitalize sv s) \<in> set ''abcdefghijklmnopqrstuvwxyz''"
    by (auto simp: lexicon_def)
  moreover from assms
  have "capitalize sv s = [] \<or> hd (capitalize sv s) \<notin> set ''abcdefghijklmnopqrstuvwxyz''"
    unfolding capitalize_ok_def by blast
  ultimately show False by blast
qed

lemma not_lower_ascii_upper_char: "\<not> is_lower (ascii_upper_char c)"
proof (cases "is_lower c")
  case True
  then show ?thesis unfolding is_lower_def ascii_upper_char_def by auto
next
  case False
  then have "ascii_upper_char c = c" unfolding is_lower_def ascii_upper_char_def
    by (auto split: option.splits if_splits)
  with False show ?thesis by simp
qed

lemma plain_capitalize_ok: "capitalize_ok plain_services"
proof -
  have "ascii_capitalize s = [] \<or> hd (ascii_capitalize s) \<notin> set ''abcdefghijklmnopqrstuvwxyz''"
    for s
  proof (cases s)
    case Nil
    then show ?thesis by (simp add: ascii_capitalize_def)
  next
    case (Cons c cs)
    have "\<not> is_lower (hd (ascii_capitalize s))"
      by (simp add: Cons ascii_capitalize_def not_lower_ascii_upper_char)
    then show ?thesis by (simp only: is_lower_def) simp
  qed
  then show ?thesis by (simp add: capitalize_ok_def plain_services_def)
qed

lemma first_index_less: "x \<in> set xs \<Longrightarrow> first_index xs x < length xs"
  unfolding first_index_def
  by (induction xs) auto

lemma nth_first_index: "x \<in> set xs \<Longrightarrow> xs ! first_index xs x = x"
  unfolding first_index_def
  by (induction xs) auto

lemma count_list_distinct: "distinct xs \<Longrightarrow> x \<in> set xs \<Longrightarrow> count_list xs x = 1"
  by (induction xs) auto

subsection \<open>Items and the loop\<close>

lemma sub_first_ci_absent:
  "search_ci sv target s = None \<Longrightarrow> sub_first_ci sv target repl s = s"
  by (simp add: sub_first_ci_def)

lemma ascii_search_ci_absent:
  "\<not> sublist (ascii_lower target) (ascii_lower s) \<Longrightarrow> ascii_search_ci target s = None"
proof (induction s)
  case Nil
  then show ?case by (auto simp: ascii_lower_def)
next
  case (Cons c cs)
  from Cons.prems have np: "\<not> prefix (ascii_lower target) (ascii_lower (c # cs))"
    using prefix_imp_sublist by blast
  from Cons.prems have "\<not> sublist (ascii_lower target) (ascii_lower cs)"
    by (simp add: ascii_lower_def sublist_Cons_right)
  with Cons.IH np show ?case by simp
qed

lemma build_item_short:
  "q_type \<noteq> ''mcq'' \<Longrightarrow> build_item sv q_type sent target r =
     Inr (\<lparr>item_type = Some ''short'',
           item_question = Some (strip sv (sub_first_ci sv target ''____'' sent)),
           item_answer = Some (lower sv (strip_punct target)), item_options = None,
           item_correct_idx = None\<rparr>, r)"
  by (simp add: build_item_def)

lemma build_item_mcq:
  "\<exists>opts r'. build_item sv ''mcq'' sent target r =
     Inr (\<lparr>item_type = Some ''mcq'',
           item_question = Some (strip sv (sub_first_ci sv target ''____'' sent)),
           item_answer = Some (capitalize sv (strip_punct target)), item_options = Some opts,
           item_correct_idx =
             Some (int (first_index opts (capitalize sv (strip_punct target))))\<rparr>,
          r') \<and>
     length opts = 4 \<and> capitalize sv (strip_punct target) \<in> set opts \<and>
     (capitalize_ok sv \<longrightarrow> distinct opts)"
proof -
  let ?c = "capitalize sv (strip_punct target)"
  obtain ds r1 where s: "sample lexicon 3 r = (ds, r1)" by (cases "sample lexicon 3 r")
  obtain opts r2 where sh: "shuffle (?c # ds) r1 = (opts, r2)"
    by (cases "shuffle (?c # ds) r1")
  have "length (fst (sample lexicon 3 r)) = 3 \<and> distinct (fst (sample lexicon 3 r)) \<and>
      set (fst (sample lexicon 3 r)) \<subseteq> set lexicon"
    by (rule sample_distinct) (simp_all add: lexicon_def)
  with s have ds: "length ds = 3" "distinct ds" "set ds \<subseteq> set lexicon" by simp_all
  have m: "mset opts = mset (?c # ds)" using shuffle_mset[of "?c # ds" r1] sh by simp
  have dopts: "distinct opts" if "capitalize_ok sv"
  proof -
    from ds(3) capitalize_not_in_lexicon[OF that, of "strip_punct target"]
    have "?c \<notin> set ds" by blast
    with ds(2) have "distinct (?c # ds)" by simp
    with m show ?thesis using mset_eq_imp_distinct_iff by blast
  qed
  from m have "length opts = length (?c # ds)" by (rule mset_eq_length)
  with ds(1) have lopts: "length opts = 4" by simp
  from m have "set opts = set (?c # ds)" by (rule mset_eq_setD)
  then have mem: "?c \<in> set opts" by simp
  have "build_item sv ''mcq'' sent target r =
     Inr (\<lparr>item_type = Some ''mcq'',
           item_question = Some (strip sv (sub_first_ci sv target ''____'' sent)),
           item_answer = Some ?c, item_options = Some opts,
           item_correct_idx = Some (int (first_index opts ?c))\<rparr>, r2)"
    using s sh mem by (simp add: build_item_def list_index_def Let_def)
  with lopts dopts mem show ?thesis by blast
qed

lemma build_item_total: "\<exists>item r'. build_item sv q_type sent target r = Inr (item, r')"
proof (cases "q_type = ''mcq''")
  case True
  with build_item_mcq[of sv sent target r] show ?thesis by blast
next
  case False
  then show ?thesis by (simp add: build_item_short)
qed

lemma build_item_mcq_integrity:
  assumes "capitalize_ok sv"
    and "build_item sv q_type sent target r = Inr (item, r')" and "target \<in> set targets"
    and "item_type item = Some ''mcq''"
  shows "mcq_integrity sv targets item"
proof (cases "q_type = ''mcq''")
  case False
  with assms(2,4) show ?thesis by (auto simp: build_item_short)
next
  case True
  let ?c = "capitalize sv (strip_punct target)"
  from build_item_mcq[of sv sent target r] True assms(1,2)
  obtain opts where it: "item = \<lparr>item_type = Some ''mcq'',
           item_question = Some (strip sv (sub_first_ci sv target ''____'' sent)),
           item_answer = Some ?c, item_options = Some opts,
           item_correct_idx = Some (int (first_index opts ?c))\<rparr>"
    and o: "length opts = 4" "distinct opts" "?c \<in> set opts"
    by auto
  from o have "first_index opts ?c < 4" "opts ! first_index opts ?c = ?c"
      "count_list opts ?c = 1"
    using first_index_less[of ?c opts] nth_first_index[of ?c opts]
      count_list_distinct[of opts ?c] by simp_all
  with o assms(3) show ?thesis
    by (auto simp: mcq_integrity_def it)
qed

lemma quiz_loop_step:
  assumes "filter (\<lambda>s. s \<notin> used) sentences \<noteq> []"
    and "choice (filter (\<lambda>s. s \<notin> used) sentences) r = (sent, r1)"
    and "(if nouns \<noteq> [] then choice nouns r1 else (''concept'', r1)) = (target, r2)"
    and "build_item sv (if int i < n div 2 then ''mcq'' else ''short'') sent target r2
           = Inr (item, r3)"
  shows "quiz_loop sv sentences nouns n (i # rest) used quiz r
           = quiz_loop sv sentences nouns n rest (insert sent used) (quiz @ [(sent, item)]) r3"
  using assms by (simp add: Let_def)

lemma quiz_loop_done:
  "filter (\<lambda>s. s \<notin> used) sentences = [] \<Longrightarrow>
     quiz_loop sv sentences nouns n (i # rest) used quiz r = Inr quiz"
  by simp

lemma quiz_loop_result:
  assumes step: "\<And>q_type sent target r item r'.
      sent \<in> set sentences \<Longrightarrow>
      target \<in> set (if nouns \<noteq> [] then nouns else [''concept'']) \<Longrightarrow>
      build_item sv q_type sent target r = Inr (item, r') \<Longrightarrow> Q sent item"
    and "\<forall>(s, it) \<in> set quiz. Q s it"
    and "distinct (map fst quiz)" and "set (map fst quiz) = used" and "used \<subseteq> set sentences"
  shows "\<exists>res. quiz_loop sv sentences nouns n idxs used quiz r = Inr res \<and>
    (\<forall>(s, it) \<in> set res. Q s it) \<and>
    distinct (map fst res) \<and> set (map fst res) \<subseteq> set sentences \<and>
    length res = length quiz + min (length idxs) (card (set sentences - used)) \<and>
    (card (set sentences - used) < length idxs \<longrightarrow> set (map fst res) = set sentences)"
  using assms(2-)
proof (induction idxs arbitrary: used quiz r)
  case Nil
  then show ?case by simp
next
  case (Cons i rest)
  let ?av = "filter (\<lambda>s. s \<notin> used) sentences"
  show ?case
  proof (cases "?av = []")
    case True
    then have "set sentences \<subseteq> used" by (auto simp: filter_empty_conv)
    with Cons.prems(4) have eq: "set sentences = used" by blast
    then have "set sentences - used = {}" by simp
    with True Cons.prems eq show ?thesis by (simp del: quiz_loop.simps add: quiz_loop_done)
  next
    case False
    obtain sent r1 where c1: "choice ?av r = (sent, r1)" by (cases "choice ?av r")
    obtain target r2 where c2:
      "(if nouns \<noteq> [] then choice nouns r1 else (''concept'', r1)) = (target, r2)"
      by (cases "if nouns \<noteq> [] then choice nouns r1 else (''concept'', r1)")
    let ?qt = "if int i < n div 2 then ''mcq'' else ''short''"
    obtain item r3 where b: "build_item sv ?qt sent target r2 = Inr (item, r3)"
      using build_item_total[of sv ?qt sent target r2] by blast
    from choice_mem[OF False, of r] c1 have "sent \<in> set ?av" by simp
    then have sent: "sent \<in> set sentences" "sent \<notin> used" by simp_all
    have tg: "target \<in> set (if nouns \<noteq> [] then nouns else [''concept''])"
    proof (cases "nouns = []")
      case True
      with c2 show ?thesis by simp
    next
      case False
      with choice_mem[OF False, of r1] c2 show ?thesis by simp
    qed
    from step[OF sent(1) tg b] have q: "Q sent item" .
    let ?used = "insert sent used" and ?quiz = "quiz @ [(sent, item)]"
    have fin: "finite (set sentences - used)" by simp
    have cd: "card (set sentences - ?used) = card (set sentences - used) - 1"
    proof -
      have "set sentences - ?used = (set sentences - used) - {sent}" by blast
      moreover have "sent \<in> set sentences - used" using sent by simp
      ultimately show ?thesis by simp
    qed
    have pos: "0 < card (set sentences - used)"
      using sent fin by (auto simp: card_gt_0_iff)
    have "\<exists>res. quiz_loop sv sentences nouns n rest ?used ?quiz r3 = Inr res \<and>
      (\<forall>(s, it) \<in> set res. Q s it) \<and>
      distinct (map fst res) \<and> set (map fst res) \<subseteq> set sentences \<and>
      length res = length ?quiz + min (length rest) (card (set sentences - ?used)) \<and>
      (card (set sentences - ?used) < length rest \<longrightarrow> set (map fst res) = set sentences)"
      using Cons.prems q sent by (intro Cons.IH) auto
    then obtain res where res: "quiz_loop sv sentences nouns n rest ?used ?quiz r3 = Inr res"
      "\<forall>(s, it) \<in> set res. Q s it" "distinct (map fst res)"
      "set (map fst res) \<subseteq> set sentences"
      "length res = length ?quiz + min (length rest) (card (set sentences - ?used))"
      "card (set sentences - ?used) < length rest \<longrightarrow> set (map fst res) = set sentences"
      by blast
    have "quiz_loop sv sentences nouns n (i # rest) used quiz r = Inr res"
      using quiz_loop_step[OF False c1 c2 b] res(1) by simp
    moreover have "length res = length quiz + min (length (i # rest)) (card (set sentences - used))"
      using res(5) cd pos by simp
    moreover have "card (set sentences - used) < length (i # rest) \<longrightarrow>
        set (map fst res) = set sentences"
      using res(6) cd pos by auto
    ultimately show ?thesis using res(2,3,4) by blast
  qed
qed

lemma generate_quiz_sources_result:
  assumes "\<And>q_type sent target r item r'.
      sent \<in> set (sent_tokenize sv summary) \<Longrightarrow>
      target \<in> set (quiz_targets sv summary) \<Longrightarrow>
      build_item sv q_type sent target r = Inr (item, r') \<Longrightarrow> Q sent item"
  shows "\<exists>res. generate_quiz_sources sv summary n r = Inr res \<and>
    (\<forall>(s, it) \<in> set res. Q s it) \<and>
    distinct (map fst res) \<and> set (map fst res) \<subseteq> set (sent_tokenize sv summary) \<and>
    length res = min (nat n) (card (set (sent_tokenize sv summary))) \<and>
    (card (set (sent_tokenize sv summary)) < nat n \<longrightarrow>
       set (map fst res) = set (sent_tokenize sv summary))"
proof (cases "sent_tokenize sv summary = []")
  case True
  then show ?thesis by (simp add: generate_quiz_sources_def)
next
  case False
  have "\<exists>res. quiz_loop sv (sent_tokenize sv summary) (quiz_nouns sv summary) n [0..<nat n] {} [] r
        = Inr res \<and>
    (\<forall>(s, it) \<in> set res. Q s it) \<and>
    distinct (map fst res) \<and> set (map fst res) \<subseteq> set (sent_tokenize sv summary) \<and>
    length res = length ([] :: (string \<times> quiz_item) list)
       + min (length [0..<nat n]) (card (set (sent_tokenize sv summary) - {})) \<and>
    (card (set (sent_tokenize sv summary) - {}) < length [0..<nat n] \<longrightarrow>
       set (map fst res) = set (sent_tokenize sv summary))"
    by (rule quiz_loop_result) (use assms in \<open>auto simp: quiz_targets_def\<close>)
  with False show ?thesis by (simp add: generate_quiz_sources_def)
qed

subsection \<open>The quiz\<close>

lemma generate_quiz_sources_map:
  "generate_quiz_sources sv summary n r = Inr quiz \<Longrightarrow>
     generate_quiz sv summary n r = Inr (map snd quiz)"
  by (simp add: generate_quiz_def)

text \<open>
  Claim C4: \<^verbatim>\<open>generate_quiz\<close> always returns a quiz, and every item of type
  \<^verbatim>\<open>mcq\<close> in it has four options, pairwise distinct; its answer is the canonical
  answer of a target (a noun of the summary, or \<^verbatim>\<open>concept\<close> when there is none),
  capitalized; the answer occurs once among the options, and the stored index is its
  position there, for every outcome of the random draws. Of the libraries this uses that a
  capitalized string does not start with a letter from a to z.
\<close>

theorem mcq_option_integrity:
  assumes "capitalize_ok sv"
  shows "\<exists>quiz. generate_quiz sv summary n r = Inr quiz \<and>
     (\<forall>item \<in> set quiz. item_type item = Some ''mcq'' \<longrightarrow>
        mcq_integrity sv (quiz_targets sv summary) item)"
proof -
  let ?Q = "\<lambda>(s :: string) item. item_type item = Some ''mcq'' \<longrightarrow>
        mcq_integrity sv (quiz_targets sv summary) item"
  have "\<exists>res. generate_quiz_sources sv summary n r = Inr res \<and>
    (\<forall>(s, it) \<in> set res. ?Q s it) \<and>
    distinct (map fst res) \<and> set (map fst res) \<subseteq> set (sent_tokenize sv summary) \<and>
    length res = min (nat n) (card (set (sent_tokenize sv summary))) \<and>
    (card (set (sent_tokenize sv summary)) < nat n \<longrightarrow>
       set (map fst res) = set (sent_tokenize sv summary))"
    by (rule generate_quiz_sources_result)
      (use build_item_mcq_integrity[OF assms] in blast)
  then obtain res where res: "generate_quiz_sources sv summary n r = Inr res"
    and q: "\<forall>(s, it) \<in> set res. ?Q s it"
    by blast
  from res have "generate_quiz sv summary n r = Inr (map snd res)"
    by (rule generate_quiz_sources_map)
  moreover from q have "\<forall>item \<in> set (map snd res). item_type item = Some ''mcq'' \<longrightarrow>
        mcq_integrity sv (quiz_targets sv summary) item"
    by auto
  ultimately show ?thesis by blast
qed

theorem mcq_option_integrity_witness:
  "capitalize_ok plain_services \<and>
   generate_quiz plain_services ''Cats purr. Dogs bark.'' 2 [0, 1, 2, 1, 4, 2, 1, 1, 0, 0]
     = Inr [\<lparr>item_type = Some ''mcq'', item_question = Some ''Cats purr.'',
              item_answer = Some ''Dogs'',
              item_options = Some [''Dogs'', ''process'', ''data'', ''method''],
              item_correct_idx = Some 0\<rparr>,
            \<lparr>item_type = Some ''short'', item_question = Some ''Dogs bark.'',
              item_answer = Some ''cats'', item_options = None, item_correct_idx = None\<rparr>] \<and>
   mcq_integrity plain_services (quiz_targets plain_services ''Cats purr. Dogs bark.'')
     \<lparr>item_type = Some ''mcq'', item_question = Some ''Cats purr.'',
      item_answer = Some ''Dogs'',
      item_options = Some [''Dogs'', ''process'', ''data'', ''method''],
      item_correct_idx = Some 0\<rparr>"
proof -
  let ?q = "[\<lparr>item_type = Some ''mcq'', item_question = Some ''Cats purr.'',
              item_answer = Some ''Dogs'',
              item_options = Some [''Dogs'', ''process'', ''data'', ''method''],
              item_correct_idx = Some 0\<rparr>,
            \<lparr>item_type = Some ''short'', item_question = Some ''Dogs bark.'',
              item_answer = Some ''cats'', item_options = None, item_correct_idx = None\<rparr>]"
  have v: "generate_quiz plain_services ''Cats purr. Dogs bark.'' 2
      [0, 1, 2, 1, 4, 2, 1, 1, 0, 0] = Inr ?q"
    by code_simp
  from mcq_option_integrity[OF plain_capitalize_ok, of "''Cats purr. Dogs bark.''" 2
      "[0, 1, 2, 1, 4, 2, 1, 1, 0, 0]"]
  have "\<forall>item \<in> set ?q. item_type item = Some ''mcq'' \<longrightarrow>
      mcq_integrity plain_services (quiz_targets plain_services ''Cats purr. Dogs bark.'') item"
    unfolding v by blast
  then show ?thesis using v plain_capitalize_ok by simp
qed

text \<open>
  Claim C5: for a count that is not negative, \<^verbatim>\<open>generate_quiz\<close> always returns a
  quiz, of at most that many items; the sentences the items were built from are pairwise
  distinct sentences of the summary; the quiz has as many items as the smaller of the count
  and the number of distinct sentences, so it is shorter than requested exactly when the
  summary has fewer distinct sentences than requested, and then every sentence has been
  used.
\<close>

theorem quiz_sentences_distinct:
  assumes "0 \<le> n"
  shows "\<exists>quiz. generate_quiz_sources sv summary n r = Inr quiz \<and>
     generate_quiz sv summary n r = Inr (map snd quiz) \<and>
     int (length (map snd quiz)) \<le> n \<and>
     distinct (map fst quiz) \<and>
     set (map fst quiz) \<subseteq> set (sent_tokenize sv summary) \<and>
     length quiz = min (nat n) (card (set (sent_tokenize sv summary))) \<and>
     ((int (length quiz) < n) = (card (set (sent_tokenize sv summary)) < nat n)) \<and>
     (int (length quiz) < n \<longrightarrow> set (map fst quiz) = set (sent_tokenize sv summary))"
proof -
  have "\<exists>res. generate_quiz_sources sv summary n r = Inr res \<and>
    (\<forall>(s, it) \<in> set res. True) \<and>
    distinct (map fst res) \<and> set (map fst res) \<subseteq> set (sent_tokenize sv summary) \<and>
    length res = min (nat n) (card (set (sent_tokenize sv summary))) \<and>
    (card (set (sent_tokenize sv summary)) < nat n \<longrightarrow>
       set (map fst res) = set (sent_tokenize sv summary))"
    by (rule generate_quiz_sources_result) simp
  then obtain res where res: "generate_quiz_sources sv summary n r = Inr res"
    and d: "distinct (map fst res)"
    and s: "set (map fst res) \<subseteq> set (sent_tokenize sv summary)"
    and l: "length res = min (nat n) (card (set (sent_tokenize sv summary)))"
    and a: "card (set (sent_tokenize sv summary)) < nat n \<longrightarrow>
       set (map fst res) = set (sent_tokenize sv summary)"
    by blast
  from res have g: "generate_quiz sv summary n r = Inr (map snd res)"
    by (rule generate_quiz_sources_map)
  from l assms have le: "int (length (map snd res)) \<le> n" by simp
  from l assms have iff: "(int (length res) < n) = (card (set (sent_tokenize sv summary)) < nat n)"
    by (auto simp: min_def)
  from res g le d s l iff a show ?thesis by blast
qed

theorem quiz_sentences_distinct_witness:
  "(0::int) \<le> 6 \<and>
   generate_quiz_sources plain_services ''Cats purr. Dogs bark.'' 6
       [1, 1, 2, 1, 4, 2, 1, 1, 0, 0] =
     Inr [(''Dogs bark.'',
           \<lparr>item_type = Some ''mcq'', item_question = Some ''____ bark.'',
            item_answer = Some ''Dogs'',
            item_options = Some [''Dogs'', ''process'', ''data'', ''method''],
            item_correct_idx = Some 0\<rparr>),
          (''Cats purr.'',
           \<lparr>item_type = Some ''mcq'', item_question = Some ''____ purr.'',
            item_answer = Some ''Cats'',
            item_options = Some [''system'', ''result'', ''example'', ''Cats''],
            item_correct_idx = Some 3\<rparr>)] \<and>
   card (set (sent_tokenize plain_services ''Cats purr. Dogs bark.'')) = 2 \<and>
   set (sent_tokenize plain_services ''Cats purr. Dogs bark.'') = {''Dogs bark.'', ''Cats purr.''}"
proof -
  let ?q = "[(''Dogs bark.'',
           \<lparr>item_type = Some ''mcq'', item_question = Some ''____ bark.'',
            item_answer = Some ''Dogs'',
            item_options = Some [''Dogs'', ''process'', ''data'', ''method''],
            item_correct_idx = Some 0\<rparr>),
          (''Cats purr.'',
           \<lparr>item_type = Some ''mcq'', item_question = Some ''____ purr.'',
            item_answer = Some ''Cats'',
            item_options = Some [''system'', ''result'', ''example'', ''Cats''],
            item_correct_idx = Some 3\<rparr>)]"
  have h: "(0::int) \<le> 6" by simp
  have v: "generate_quiz_sources plain_services ''Cats purr. Dogs bark.'' 6
       [1, 1, 2, 1, 4, 2, 1, 1, 0, 0] = Inr ?q"
    by code_simp
  from quiz_sentences_distinct[OF h, of plain_services "''Cats purr. Dogs bark.''"
      "[1, 1, 2, 1, 4, 2, 1, 1, 0, 0]"]
  have l: "length ?q = min (nat 6) (card (set (sent_tokenize plain_services ''Cats purr. Dogs bark.'')))"
    and u: "int (length ?q) < 6 \<longrightarrow>
      set (map fst ?q) = set (sent_tokenize plain_services ''Cats purr. Dogs bark.'')"
    unfolding v by blast+
  from l have c: "card (set (sent_tokenize plain_services ''Cats purr. Dogs bark.'')) = 2"
    by (simp add: min_def split: if_splits)
  from u have "set (sent_tokenize plain_services ''Cats purr. Dogs bark.'')
      = {''Dogs bark.'', ''Cats purr.''}"
    by simp
  with h v c show ?thesis by blast
qed

text \<open>
  Claim C9: when the search finds no match of the target in the sentence, the item built
  has the sentence, stripped of surrounding white space, as its question, and the canonical
  answer of that target (capitalized for a multiple-choice item, in lower case for a
  short-answer item) as its answer; so it is, for the string methods of ASCII, when the
  target in lower case is no substring of the sentence in lower case. The quiz synthesizer
  does produce such items: on a summary of two sentences it returns two questions without
  a blank marker, whose answers are the noun of the other sentence.
\<close>

theorem question_without_blank:
  "(search_ci sv target sent = None \<longrightarrow>
      (\<exists>item r'. build_item sv q_type sent target r = Inr (item, r') \<and>
         item_question item = Some (strip sv sent) \<and>
         item_answer item =
           Some (if q_type = ''mcq'' then capitalize sv (strip_punct target)
                 else lower sv (strip_punct target)))) \<and>
   (\<not> sublist (ascii_lower target) (ascii_lower sent) \<longrightarrow>
      (\<exists>item r'. build_item plain_services q_type sent target r = Inr (item, r') \<and>
         item_question item = Some (ascii_strip sent) \<and>
         item_answer item =
           Some (if q_type = ''mcq'' then ascii_capitalize (strip_punct target)
                 else ascii_lower (strip_punct target)))) \<and>
   (generate_quiz plain_services ''Cats purr. Dogs bark.'' 2 [0, 1, 2, 1, 4, 2, 1, 1, 0, 0]
     = Inr [\<lparr>item_type = Some ''mcq'', item_question = Some ''Cats purr.'',
              item_answer = Some ''Dogs'',
              item_options = Some [''Dogs'', ''process'', ''data'', ''method''],
              item_correct_idx = Some 0\<rparr>,
            \<lparr>item_type = Some ''short'', item_question = Some ''Dogs bark.'',
              item_answer = Some ''cats'', item_options = None, item_correct_idx = None\<rparr>] \<and>
    \<not> sublist ''____'' ''Cats purr.'' \<and> \<not> sublist ''____'' ''Dogs bark.'')"
proof -
  have gen: "\<exists>item r'. build_item sv' q_type sent target r = Inr (item, r') \<and>
         item_question item = Some (strip sv' sent) \<and>
         item_answer item =
           Some (if q_type = ''mcq'' then capitalize sv' (strip_punct target)
                 else lower sv' (strip_punct target))"
    if "search_ci sv' target sent = None" for sv'
  proof (cases "q_type = ''mcq''")
    case True
    from build_item_mcq[of sv' sent target r] obtain opts r' where
      "build_item sv' ''mcq'' sent target r =
        Inr (\<lparr>item_type = Some ''mcq'',
           item_question = Some (strip sv' (sub_first_ci sv' target ''____'' sent)),
           item_answer = Some (capitalize sv' (strip_punct target)), item_options = Some opts,
           item_correct_idx =
             Some (int (first_index opts (capitalize sv' (strip_punct target))))\<rparr>,
          r')"
      by blast
    with True that show ?thesis by (simp add: sub_first_ci_absent)
  next
    case False
    with that show ?thesis by (simp add: build_item_short sub_first_ci_absent)
  qed
  have asc: "\<exists>item r'. build_item plain_services q_type sent target r = Inr (item, r') \<and>
         item_question item = Some (ascii_strip sent) \<and>
         item_answer item =
           Some (if q_type = ''mcq'' then ascii_capitalize (strip_punct target)
                 else ascii_lower (strip_punct target))"
    if "\<not> sublist (ascii_lower target) (ascii_lower sent)"
  proof -
    have f: "strip plain_services = ascii_strip"
      "capitalize plain_services = ascii_capitalize"
      "lower plain_services = ascii_lower"
      "search_ci plain_services = ascii_search_ci"
      by (simp_all add: plain_services_def)
    from that have "search_ci plain_services target sent = None"
      unfolding f by (rule ascii_search_ci_absent)
    from gen[OF this] show ?thesis unfolding f .
  qed
  have v: "generate_quiz plain_services ''Cats purr. Dogs bark.'' 2
      [0, 1, 2, 1, 4, 2, 1, 1, 0, 0]
     = Inr [\<lparr>item_type = Some ''mcq'', item_question = Some ''Cats purr.'',
              item_answer = Some ''Dogs'',
              item_options = Some [''Dogs'', ''process'', ''data'', ''method''],
              item_correct_idx = Some 0\<rparr>,
            \<lparr>item_type = Some ''short'', item_question = Some ''Dogs bark.'',
              item_answer = Some ''cats'', item_options = None, item_correct_idx = None\<rparr>]"
    by code_simp
  have n1: "\<not> sublist ''____'' ''Cats purr.''" by code_simp
  have n2: "\<not> sublist ''____'' ''Dogs bark.''" by code_simp
  from gen[of sv] asc v n1 n2 show ?thesis by blast
qed

theorem question_without_blank_witness:
  "search_ci plain_services ''dogs'' ''Cats purr.'' = None \<and>
   \<not> sublist (ascii_lower ''dogs'') (ascii_lower ''Cats purr.'') \<and>
   (\<exists>item r'. build_item plain_services ''short'' ''Cats purr.'' ''dogs'' [] = Inr (item, r') \<and>
      item_question item = Some ''Cats purr.'' \<and> item_answer item = Some ''dogs'')"
proof -
  have h: "search_ci plain_services ''dogs'' ''Cats purr.'' = None" by code_simp
  have h': "\<not> sublist (ascii_lower ''dogs'') (ascii_lower ''Cats purr.'')" by code_simp
  have s: "strip plain_services ''Cats purr.'' = ''Cats purr.''" by code_simp
  have a: "(if ''short'' = ''mcq'' then capitalize plain_services (strip_punct ''dogs'')
       else lower plain_services (strip_punct ''dogs'')) = ''dogs''"
    by code_simp
  from question_without_blank[of plain_services "''dogs''" "''Cats purr.''" "''short''" "[]"] h
  have "\<exists>item r'. build_item plain_services ''short'' ''Cats purr.'' ''dogs'' [] = Inr (item, r') \<and>
         item_question item = Some (strip plain_services ''Cats purr.'') \<and>
         item_answer item =
           Some (if ''short'' = ''mcq'' then capitalize plain_services (strip_punct ''dogs'')
                 else lower plain_services (strip_punct ''dogs''))"
    by blast
  then show ?thesis using h h' unfolding s a by blast
qed
section \<open>Properties of the scorer\<close>

lemma feedback_loop_pairs:
  "feedback_loop sv quiz i answers st = grade_pairs sv (zip (drop i quiz) answers) st"
proof (induction answers arbitrary: i st)
  case Nil
  show ?case by simp
next
  case (Cons a rest)
  obtain sc pq weak where st: "st = (sc, pq, weak)" by (cases st)
  show ?case
  proof (cases "i \<ge> length quiz")
    case True
    then show ?thesis by (simp add: st)
  next
    case False
    then have d: "drop i quiz = quiz ! i # drop (Suc i) quiz"
      by (simp add: Cons_nth_drop_Suc)
    show ?thesis
      using False by (simp add: st d Cons.IH split: sum.splits)
  qed
qed

lemma zip_take_lengths: "zip (take (length ys) xs) (take (length xs) ys) = zip xs ys"
proof (induction xs arbitrary: ys)
  case Nil
  show ?case by simp
next
  case (Cons x xs)
  then show ?case by (cases ys) simp_all
qed

lemma grade_pairs_Inr:
  assumes "grade_pairs sv ps (s0, pq0, w0) = Inr (sc, pq, weak)"
  shows "\<exists>bs. map (\<lambda>p. grade_item sv (fst p) (snd p)) ps = map Inr bs \<and>
     sc = s0 + length (filter (\<lambda>b. b) bs) \<and>
     pq = pq0 @ map (\<lambda>b. if b then 1 else 0) bs \<and>
     weak = w0 @ map (\<lambda>p. answer_or_concept (fst p)) (filter (\<lambda>p. \<not> snd p) (zip (map fst ps) bs))"
  using assms
proof (induction ps arbitrary: s0 pq0 w0)
  case Nil
  then show ?case by simp
next
  case (Cons p ps)
  obtain q a where p: "p = (q, a)" by (cases p)
  from Cons.prems obtain b where b: "grade_item sv q a = Inr b"
    by (auto simp: p split: sum.splits)
  show ?case
  proof (cases b)
    case True
    with Cons.prems b have "grade_pairs sv ps (s0 + 1, pq0 @ [1], w0) = Inr (sc, pq, weak)"
      by (simp add: p)
    from Cons.IH[OF this] obtain bs where
      "map (\<lambda>p. grade_item sv (fst p) (snd p)) ps = map Inr bs"
      "sc = s0 + 1 + length (filter (\<lambda>b. b) bs)"
      "pq = (pq0 @ [1]) @ map (\<lambda>b. if b then 1 else 0) bs"
      "weak = w0 @ map (\<lambda>p. answer_or_concept (fst p))
          (filter (\<lambda>p. \<not> snd p) (zip (map fst ps) bs))"
      by blast
    with True b show ?thesis
      by (intro exI[of _ "b # bs"]) (simp add: p)
  next
    case False
    with Cons.prems b
    have "grade_pairs sv ps (s0, pq0 @ [0], w0 @ [answer_or_concept q]) = Inr (sc, pq, weak)"
      by (simp add: p)
    from Cons.IH[OF this] obtain bs where
      "map (\<lambda>p. grade_item sv (fst p) (snd p)) ps = map Inr bs"
      "sc = s0 + length (filter (\<lambda>b. b) bs)"
      "pq = (pq0 @ [0]) @ map (\<lambda>b. if b then 1 else 0) bs"
      "weak = (w0 @ [answer_or_concept q]) @ map (\<lambda>p. answer_or_concept (fst p))
          (filter (\<lambda>p. \<not> snd p) (zip (map fst ps) bs))"
      by blast
    with False b show ?thesis
      by (intro exI[of _ "b # bs"]) (simp add: p)
  qed
qed

lemma grade_pairs_total:
  assumes "\<forall>p \<in> set ps. \<not> isl (grade_item sv (fst p) (snd p))"
  shows "\<exists>res. grade_pairs sv ps (s0, pq0, w0) = Inr res"
  using assms
proof (induction ps arbitrary: s0 pq0 w0)
  case Nil
  show ?case by simp
next
  case (Cons p ps)
  obtain q a where p: "p = (q, a)" by (cases p)
  from Cons.prems obtain b where b: "grade_item sv q a = Inr b"
    by (cases "grade_item sv q a") (auto simp: p)
  from Cons.prems have r: "\<forall>p \<in> set ps. \<not> isl (grade_item sv (fst p) (snd p))" by simp
  show ?case
    using Cons.IH[OF r, of "s0 + 1" "pq0 @ [1]" w0]
      Cons.IH[OF r, of s0 "pq0 @ [0]" "w0 @ [answer_or_concept q]"]
    by (simp add: p b)
qed

lemma ascii_lower_char_idem: "ascii_lower_char (ascii_lower_char c) = ascii_lower_char c"
proof (cases "map_of (zip ''ABCDEFGHIJKLMNOPQRSTUVWXYZ'' ''abcdefghijklmnopqrstuvwxyz'') c")
  case None
  then show ?thesis by (simp add: ascii_lower_char_def)
next
  case (Some d)
  then have "(c, d) \<in> set (zip ''ABCDEFGHIJKLMNOPQRSTUVWXYZ'' ''abcdefghijklmnopqrstuvwxyz'')"
    by (rule map_of_SomeD)
  then have "d \<in> set ''abcdefghijklmnopqrstuvwxyz''" by (rule set_zip_rightD)
  then have "d \<notin> set ''ABCDEFGHIJKLMNOPQRSTUVWXYZ''" by auto
  then have "map_of (zip ''ABCDEFGHIJKLMNOPQRSTUVWXYZ'' ''abcdefghijklmnopqrstuvwxyz'') d = None"
    by (subst map_of_zip_is_None) simp_all
  with Some show ?thesis by (simp add: ascii_lower_char_def)
qed

lemma plain_lower_ok: "lower_ok plain_services"
  by (simp add: lower_ok_def plain_services_def ascii_lower_def ascii_lower_char_idem)

lemma round_half_even_bounds:
  assumes "of_int a \<le> y" and "y \<le> of_int b"
  shows "a \<le> round_half_even y \<and> round_half_even y \<le> b"
proof -
  let ?f = "\<lfloor>y\<rfloor>"
  from assms(1) have lo: "a \<le> ?f" by (simp add: le_floor_iff)
  from assms(2) have hi: "?f \<le> b" by (simp add: floor_le_iff)
  have hi': "?f + 1 \<le> b" if "y \<noteq> of_int ?f"
  proof -
    have "of_int ?f \<le> y" by (rule of_int_floor_le)
    with that have "of_int ?f < y" by (simp only: order.strict_iff_order not_sym simp_thms)
    with assms(2) have "(of_int ?f :: rat) < of_int b" by simp
    then show ?thesis by simp
  qed
  show ?thesis
    using lo hi hi' by (auto simp: round_half_even_def Let_def)
qed

lemma exact_round1_bounds:
  assumes "0 \<le> x" and "x \<le> 100"
  shows "0 \<le> exact_round1 x \<and> exact_round1 x \<le> 100"
proof -
  have "(of_int 0 :: rat) \<le> x * 10" using assms(1) by simp
  moreover have "x * 10 \<le> of_int 1000" using assms(2) by simp
  ultimately have "0 \<le> round_half_even (x * 10) \<and> round_half_even (x * 10) \<le> 1000"
    by (rule round_half_even_bounds)
  then have "(0::rat) \<le> of_int (round_half_even (x * 10))"
    and "(of_int (round_half_even (x * 10)) :: rat) \<le> 1000"
    by simp_all
  then show ?thesis by (simp add: exact_round1_def)
qed

lemma plain_float_ok: "float_ok plain_services"
proof -
  have d: "0 \<le> (of_nat a :: rat) / of_nat b \<and> (of_nat a :: rat) / of_nat b \<le> 1"
    if "a \<le> b" "0 < b" for a b :: nat
  proof -
    from that(1) have "(of_nat a :: rat) \<le> of_nat b" by simp
    with that(2) show ?thesis by (simp add: divide_le_eq_1)
  qed
  have m: "0 \<le> x * 100 \<and> x * 100 \<le> 100" if "0 \<le> x" "x \<le> 1" for x :: rat
    using that by simp
  have z: "exact_round1 0 = 0" by (simp add: exact_round1_def round_half_even_def)
  from d m exact_round1_bounds z show ?thesis
    by (simp add: float_ok_def plain_services_def)
qed

lemma grade_item_mcq:
  "item_type q = Some ''mcq'' \<Longrightarrow> item_correct_idx q = Some c \<Longrightarrow>
     grade_item sv q a = Inr (py_eq_int a c)"
  by (simp add: grade_item_def)

lemma grade_item_short:
  "item_type q = Some ''short'' \<Longrightarrow> item_answer q = Some key \<Longrightarrow>
     grade_item sv q (JStr t)
       = Inr (sublist key (lower sv (strip sv t)) \<and> lower sv (strip sv t) \<noteq> [])"
  by (cases "t = []") (simp_all add: grade_item_def Let_def)

lemma grade_item_other:
  "item_type q = Some ty \<Longrightarrow> ty \<noteq> ''mcq'' \<Longrightarrow> ty \<noteq> ''short'' \<Longrightarrow>
     grade_item sv q a = Inr False"
  by (simp add: grade_item_def)

lemma grade_item_stored:
  assumes "stored_item sv q" and "item_type q = Some ''short'' \<longrightarrow> text_or_empty a"
  shows "\<not> isl (grade_item sv q a)"
proof -
  from assms(1) obtain ty where ty: "item_type q = Some ty"
    by (auto simp: stored_item_def split: option.splits)
  show ?thesis
  proof (cases "ty = ''mcq''")
    case True
    with assms(1) ty show ?thesis by (auto simp: stored_item_def grade_item_def)
  next
    case nm: False
    show ?thesis
    proof (cases "ty = ''short''")
      case False
      with nm ty show ?thesis by (simp add: grade_item_other)
    next
      case True
      with assms(1) ty obtain key where key: "item_answer q = Some key"
        by (auto simp: stored_item_def split: option.splits)
      from True ty assms(2) have "text_or_empty a" by simp
      then show ?thesis using True ty key
        by (cases a) (auto simp: grade_item_def text_or_empty_def Let_def)
    qed
  qed
qed

lemma feedback_pairs:
  "feedback sv quiz answers =
     (case grade_pairs sv (zip quiz answers) (0, [], []) of
        Inl e \<Rightarrow> Inl e
      | Inr (sc, pq, weak) \<Rightarrow>
          Inr \<lparr>score = sc, total = (if length pq = 0 then 1 else length pq),
                percentage = round1 sv (float_mul sv
                  (float_div sv sc (if length pq = 0 then 1 else length pq)) 100),
                per_question = pq,
                weak_areas = py_slice_to 5 (set_list sv weak)\<rparr>)"
  by (simp add: feedback_def feedback_loop_pairs Let_def split: sum.split prod.split)

lemma feedback_take:
  "feedback sv quiz answers
     = feedback sv (take (length answers) quiz) (take (length quiz) answers)"
  by (simp only: feedback_pairs zip_take_lengths)

lemma build_item_stored:
  assumes "lower_ok sv" and "build_item sv q_type sent target r = Inr (item, r')"
  shows "stored_item sv item"
proof (cases "q_type = ''mcq''")
  case True
  with assms(2) build_item_mcq[of sv sent target r] show ?thesis
    by (auto simp: stored_item_def)
next
  case False
  from assms(1) have "lower sv (lower sv (strip_punct target)) = lower sv (strip_punct target)"
    unfolding lower_ok_def by blast
  with False assms(2) show ?thesis
    by (auto simp: build_item_short stored_item_def)
qed

lemma generate_quiz_stored:
  assumes "lower_ok sv"
  shows "\<exists>quiz. generate_quiz sv summary n r = Inr quiz \<and>
    (\<forall>item \<in> set quiz. stored_item sv item)"
proof -
  have "\<exists>res. generate_quiz_sources sv summary n r = Inr res \<and>
    (\<forall>(s, it) \<in> set res. stored_item sv it) \<and>
    distinct (map fst res) \<and> set (map fst res) \<subseteq> set (sent_tokenize sv summary) \<and>
    length res = min (nat n) (card (set (sent_tokenize sv summary))) \<and>
    (card (set (sent_tokenize sv summary)) < nat n \<longrightarrow>
       set (map fst res) = set (sent_tokenize sv summary))"
    by (rule generate_quiz_sources_result) (rule build_item_stored[OF assms])
  then obtain res where res: "generate_quiz_sources sv summary n r = Inr res"
    and q: "\<forall>(s, it) \<in> set res. stored_item sv it"
    by blast
  from res have "generate_quiz sv summary n r = Inr (map snd res)"
    by (rule generate_quiz_sources_map)
  moreover from q have "\<forall>item \<in> set (map snd res). stored_item sv item" by auto
  ultimately show ?thesis by blast
qed

lemma zip_take_left: "length ys \<le> n \<Longrightarrow> zip (take n xs) ys = zip xs ys"
proof (induction xs arbitrary: n ys)
  case Nil
  show ?case by simp
next
  case (Cons x xs)
  show ?case
  proof (cases ys)
    case Nil
    then show ?thesis by simp
  next
    case (Cons y ys')
    with Cons.prems obtain n' where "n = Suc n'" by (cases n) auto
    with Cons.prems Cons Cons.IH[of ys' n'] show ?thesis by simp
  qed
qed

lemma feedback_Inr:
  assumes "feedback sv quiz answers = Inr st"
  shows "\<exists>bs. length bs = min (length quiz) (length answers) \<and>
     (\<forall>i < length bs. grade_item sv (quiz ! i) (answers ! i) = Inr (bs ! i)) \<and>
     score st = length (filter (\<lambda>b. b) bs) \<and>
     per_question st = map (\<lambda>b. if b then 1 else 0) bs \<and>
     total st = (if length bs = 0 then 1 else length bs) \<and>
     percentage st = round1 sv (float_mul sv (float_div sv (score st) (total st)) 100) \<and>
     weak_areas st = py_slice_to 5 (set_list sv
        (map (\<lambda>p. answer_or_concept (fst p)) (filter (\<lambda>p. \<not> snd p) (zip quiz bs))))"
proof -
  from assms obtain sc pq weak where g: "grade_pairs sv (zip quiz answers) (0, [], []) = Inr (sc, pq, weak)"
    and st: "st = \<lparr>score = sc, total = (if length pq = 0 then 1 else length pq),
                percentage = round1 sv (float_mul sv
                  (float_div sv sc (if length pq = 0 then 1 else length pq)) 100),
                per_question = pq,
                weak_areas = py_slice_to 5 (set_list sv weak)\<rparr>"
    by (auto simp: feedback_pairs split: sum.splits)
  from grade_pairs_Inr[OF g] obtain bs where
    m: "map (\<lambda>p. grade_item sv (fst p) (snd p)) (zip quiz answers) = map Inr bs"
    and sc: "sc = length (filter (\<lambda>b. b) bs)"
    and pq: "pq = map (\<lambda>b. if b then 1 else 0) bs"
    and weak: "weak = map (\<lambda>p. answer_or_concept (fst p))
        (filter (\<lambda>p. \<not> snd p) (zip (map fst (zip quiz answers)) bs))"
    by auto
  from m have "length (zip quiz answers) = length bs" by (rule map_eq_imp_length_eq)
  then have len: "length bs = min (length quiz) (length answers)" by simp
  have nth: "grade_item sv (quiz ! i) (answers ! i) = Inr (bs ! i)" if "i < length bs" for i
  proof -
    from that len have i: "i < length (zip quiz answers)" by simp
    from m have "map (\<lambda>p. grade_item sv (fst p) (snd p)) (zip quiz answers) ! i = map Inr bs ! i"
      by simp
    with i that show ?thesis by simp
  qed
  have "map fst (zip quiz answers) = take (length answers) quiz"
    by (simp add: map_fst_zip_take min_def)
  then have "zip (map fst (zip quiz answers)) bs = zip (take (length answers) quiz) bs" by simp
  also have "\<dots> = zip quiz bs"
    using len by (intro zip_take_left) simp
  finally have z: "zip (map fst (zip quiz answers)) bs = zip quiz bs" .
  have tot: "(if length pq = 0 then 1 else length pq) = (if length bs = 0 then 1 else length bs)"
    by (simp add: pq)
  show ?thesis
    using len nth unfolding st tot
    by (intro exI[of _ bs]) (simp add: sc pq weak z del: length_0_conv)
qed

subsection \<open>Grading\<close>

lemma count_ones: "count_list (map (\<lambda>b. if b then 1 else 0) bs) (1::nat) = length (filter (\<lambda>b. b) bs)"
  by (induction bs) auto

lemma plain_set_list_ok: "set_list_ok plain_services"
  by (simp add: set_list_ok_def plain_services_def)

lemma feedback_no_answers:
  "float_ok sv \<Longrightarrow> set_list sv [] = [] \<Longrightarrow>
     feedback sv quiz [] = Inr \<lparr>score = 0, total = 1, percentage = 0, per_question = [],
       weak_areas = []\<rparr>"
  by (simp add: feedback_def float_ok_def py_slice_to_def)

text \<open>
  Claim C6: an item of type \<^verbatim>\<open>mcq\<close> is graded correct exactly when the submitted
  index equals the stored \<^verbatim>\<open>correct_idx\<close>; an item of type \<^verbatim>\<open>short\<close>,
  whose key is stored in lower case, is graded correct exactly when the key, compared
  without regard to case, is a substring of the submitted text stripped of surrounding
  white space, and that text is not empty; an item of any other type is graded incorrect;
  grading a quiz against a list of answers is grading the first items against the first
  answers, as many as the shorter of the two has; and when the items graded are stored
  items and the answers to short-answer items are text, the scorer returns a result, with
  one grade for each of those pairs. Every item \<^verbatim>\<open>generate_quiz\<close> builds is a stored
  item, and so is the placeholder. Of \<^verbatim>\<open>str.lower\<close> this uses that it changes
  nothing in its own results, and that only the empty string has an empty result.
\<close>

theorem scorer_grading:
  "(item_type q = Some ''mcq'' \<and> item_correct_idx q = Some c \<longrightarrow>
      grade_item sv q (JInt k) = Inr (k = c)) \<and>
   (lower_ok sv \<and> item_type q = Some ''short'' \<and> item_answer q = Some key \<and>
    lower sv key = key \<longrightarrow>
      grade_item sv q (JStr t)
        = Inr (sublist (lower sv key) (lower sv (strip sv t)) \<and> strip sv t \<noteq> [])) \<and>
   (item_type q = Some ty \<and> ty \<noteq> ''mcq'' \<and> ty \<noteq> ''short'' \<longrightarrow>
      grade_item sv q a = Inr False) \<and>
   feedback sv quiz answers
     = feedback sv (take (length answers) quiz) (take (length quiz) answers) \<and>
   ((\<forall>(q', a') \<in> set (zip quiz answers).
        stored_item sv q' \<and> (item_type q' = Some ''short'' \<longrightarrow> text_or_empty a')) \<longrightarrow>
    (\<exists>st. feedback sv quiz answers = Inr st \<and>
       length (per_question st) = min (length quiz) (length answers) \<and>
       (\<forall>i < min (length quiz) (length answers).
          grade_item sv (quiz ! i) (answers ! i) = Inr (per_question st ! i = 1)))) \<and>
   (lower_ok sv \<longrightarrow>
      (\<exists>gq. generate_quiz sv summary n r = Inr gq \<and>
         (\<forall>item \<in> set gq. stored_item sv item))) \<and>
   stored_item sv info_item"
proof -
  have mcq: "grade_item sv q (JInt k) = Inr (k = c)"
    if "item_type q = Some ''mcq''" "item_correct_idx q = Some c"
    using that by (simp add: grade_item_mcq)
  have short: "grade_item sv q (JStr t)
      = Inr (sublist (lower sv key) (lower sv (strip sv t)) \<and> strip sv t \<noteq> [])"
    if "lower_ok sv" "item_type q = Some ''short''" "item_answer q = Some key"
      "lower sv key = key"
  proof -
    from that(1) have "(lower sv (strip sv t) = []) = (strip sv t = [])"
      unfolding lower_ok_def by blast
    with that(2-4) show ?thesis by (simp add: grade_item_short)
  qed
  have other: "grade_item sv q a = Inr False"
    if "item_type q = Some ty" "ty \<noteq> ''mcq''" "ty \<noteq> ''short''"
    using that by (rule grade_item_other)
  have tk: "feedback sv quiz answers
     = feedback sv (take (length answers) quiz) (take (length quiz) answers)"
    by (rule feedback_take)
  have tot: "\<exists>st. feedback sv quiz answers = Inr st \<and>
       length (per_question st) = min (length quiz) (length answers) \<and>
       (\<forall>i < min (length quiz) (length answers).
          grade_item sv (quiz ! i) (answers ! i) = Inr (per_question st ! i = 1))"
    if ok: "\<forall>(q', a') \<in> set (zip quiz answers).
        stored_item sv q' \<and> (item_type q' = Some ''short'' \<longrightarrow> text_or_empty a')"
  proof -
    have "\<not> isl (grade_item sv (fst p) (snd p))" if "p \<in> set (zip quiz answers)" for p
    proof -
      from ok that have "stored_item sv (fst p)"
        and "item_type (fst p) = Some ''short'' \<longrightarrow> text_or_empty (snd p)"
        by (auto simp: case_prod_beta)
      then show ?thesis by (rule grade_item_stored)
    qed
    then have "\<forall>p \<in> set (zip quiz answers). \<not> isl (grade_item sv (fst p) (snd p))"
      by blast
    from grade_pairs_total[OF this, of 0 "[]" "[]"]
    obtain st where st: "feedback sv quiz answers = Inr st"
      by (auto simp: feedback_pairs split: sum.splits prod.splits)
    from feedback_Inr[OF st] obtain bs where
      len: "length bs = min (length quiz) (length answers)"
      and nth: "\<forall>i < length bs. grade_item sv (quiz ! i) (answers ! i) = Inr (bs ! i)"
      and pq: "per_question st = map (\<lambda>b. if b then 1 else 0) bs"
      by blast
    have "grade_item sv (quiz ! i) (answers ! i) = Inr (per_question st ! i = 1)"
      if "i < min (length quiz) (length answers)" for i
      using that nth len by (simp add: pq)
    with st len pq show ?thesis by auto
  qed
  have inf: "stored_item sv info_item" by (simp add: stored_item_def info_item_def)
  from mcq short other tk tot generate_quiz_stored[of sv summary n r] inf
  show ?thesis by blast
qed

theorem scorer_grading_witness:
  "lower_ok plain_services \<and>
   list_all (\<lambda>(q', a'). stored_item plain_services q' \<and>
       (item_type q' = Some ''short'' \<longrightarrow> text_or_empty a'))
     (zip demo_quiz demo_answers) \<and>
   feedback plain_services demo_quiz demo_answers
     = feedback plain_services demo_quiz (take 3 demo_answers) \<and>
   (\<exists>st. feedback plain_services demo_quiz demo_answers = Inr st \<and>
      length (per_question st) = 3) \<and>
   grade_item plain_services (demo_quiz ! 0) (JInt 3) = Inr True \<and>
   grade_item plain_services (demo_quiz ! 1) (JStr ''  The DOGS do '') = Inr True \<and>
   grade_item plain_services info_item (JInt 0) = Inr False \<and>
   (\<exists>gq. generate_quiz plain_services ''Cats purr. Dogs bark.'' 2 [] = Inr gq \<and>
      list_all (stored_item plain_services) gq)"
proof -
  have h0: "list_all
      (\<lambda>(q', a'). stored_item plain_services q' \<and>
         (item_type q' = Some ''short'' \<longrightarrow> text_or_empty a'))
      (zip demo_quiz demo_answers)"
    by code_simp
  then have h: "\<forall>(q', a') \<in> set (zip demo_quiz demo_answers).
        stored_item plain_services q' \<and>
        (item_type q' = Some ''short'' \<longrightarrow> text_or_empty a')"
    by (simp only: list_all_iff)
  have l: "length demo_quiz = 3" "length demo_answers = 4"
    by (simp_all add: demo_quiz_def demo_answers_def)
  have t1: "take (length demo_answers) demo_quiz = demo_quiz" by (simp add: l)
  have m: "item_type (demo_quiz ! 0) = Some ''mcq'' \<and> item_correct_idx (demo_quiz ! 0) = Some 3"
    by (simp add: demo_quiz_def)
  have s: "item_type (demo_quiz ! 1) = Some ''short'' \<and> item_answer (demo_quiz ! 1) = Some ''dogs''
      \<and> lower plain_services ''dogs'' = ''dogs''"
    unfolding demo_quiz_def by code_simp
  have e: "(sublist (lower plain_services ''dogs'')
        (lower plain_services (strip plain_services ''  The DOGS do '')) \<and>
      strip plain_services ''  The DOGS do '' \<noteq> []) = True"
    by code_simp
  note inst = scorer_grading[where sv = plain_services and quiz = demo_quiz
      and answers = demo_answers]
  from inst h have a: "\<exists>st. feedback plain_services demo_quiz demo_answers = Inr st \<and>
       length (per_question st) = min (length demo_quiz) (length demo_answers)"
    by blast
  from inst have b: "feedback plain_services demo_quiz demo_answers
     = feedback plain_services (take (length demo_answers) demo_quiz)
         (take (length demo_quiz) demo_answers)"
    by blast
  from scorer_grading[where sv = plain_services and q = "demo_quiz ! 0" and c = 3 and k = 3] m
  have c: "grade_item plain_services (demo_quiz ! 0) (JInt 3) = Inr True" by simp
  from scorer_grading[where sv = plain_services and q = "demo_quiz ! 1" and key = "''dogs''"
      and t = "''  The DOGS do ''"] s plain_lower_ok
  have d: "grade_item plain_services (demo_quiz ! 1) (JStr ''  The DOGS do '') = Inr True"
    unfolding e by blast
  from a have a': "\<exists>st. feedback plain_services demo_quiz demo_answers = Inr st \<and>
       length (per_question st) = 3"
    by (simp add: l)
  from b have b': "feedback plain_services demo_quiz demo_answers
     = feedback plain_services demo_quiz (take 3 demo_answers)"
    unfolding t1 by (simp only: l)
  have i: "item_type info_item = Some ''info'' \<and> ''info'' \<noteq> ''mcq'' \<and> ''info'' \<noteq> ''short''"
    by (simp add: info_item_def)
  from scorer_grading[where sv = plain_services and q = info_item and ty = "''info''"
      and a = "JInt 0"] i
  have f: "grade_item plain_services info_item (JInt 0) = Inr False" by blast
  from scorer_grading[where sv = plain_services and summary = "''Cats purr. Dogs bark.''"
      and n = 2 and r = "[]"] plain_lower_ok
  have "\<exists>gq. generate_quiz plain_services ''Cats purr. Dogs bark.'' 2 [] = Inr gq \<and>
      (\<forall>item \<in> set gq. stored_item plain_services item)"
    by blast
  then have g: "\<exists>gq. generate_quiz plain_services ''Cats purr. Dogs bark.'' 2 [] = Inr gq \<and>
      list_all (stored_item plain_services) gq"
    by (simp only: list_all_iff)
  from plain_lower_ok h0 a' b' c d f g show ?thesis by blast
qed

text \<open>
  Claim C7: in every result of the scorer, the number of grades is the smaller of the
  lengths of the quiz and of the answers; \<^verbatim>\<open>total\<close> is that number, or 1 when it is
  0; \<^verbatim>\<open>score\<close> is the number of grades 1 and at most \<^verbatim>\<open>total\<close>;
  \<^verbatim>\<open>percentage\<close> is the float \<^verbatim>\<open>round((score / total) * 100, 1)\<close> and lies
  between 0 and 100; \<^verbatim>\<open>weak_areas\<close> has no repetition, at most 5 elements, each
  the answer key of an item graded 0; and no answers at all give total 1, score 0,
  percentage 0 and no grades. Of the float operations this uses that a quotient of a
  number by one not smaller lies between 0 and 1, that the product with 100 and the
  rounding keep a number between their bounds, and that they are exact at 0; of the
  listing of a set, that it lists every element once.
\<close>

theorem grading_result:
  assumes "set_list_ok sv" and "float_ok sv" and "feedback sv quiz answers = Inr st"
  shows "length (per_question st) = min (length quiz) (length answers) \<and>
     total st = max 1 (length (per_question st)) \<and>
     score st = count_list (per_question st) 1 \<and> score st \<le> total st \<and>
     percentage st = round1 sv (float_mul sv (float_div sv (score st) (total st)) 100) \<and>
     0 \<le> percentage st \<and> percentage st \<le> 100 \<and>
     distinct (weak_areas st) \<and> length (weak_areas st) \<le> 5 \<and>
     set (weak_areas st) \<subseteq>
       {answer_or_concept (quiz ! i) | i. i < length (per_question st) \<and> per_question st ! i = 0} \<and>
     feedback sv quiz [] =
       Inr \<lparr>score = 0, total = 1, percentage = 0, per_question = [], weak_areas = []\<rparr>"
proof -
  from feedback_Inr[OF assms(3)] obtain bs where
    len: "length bs = min (length quiz) (length answers)"
    and sc: "score st = length (filter (\<lambda>b. b) bs)"
    and pq: "per_question st = map (\<lambda>b. if b then 1 else 0) bs"
    and tot: "total st = (if length bs = 0 then 1 else length bs)"
    and pc: "percentage st = round1 sv (float_mul sv (float_div sv (score st) (total st)) 100)"
    and wk: "weak_areas st = py_slice_to 5 (set_list sv
        (map (\<lambda>p. answer_or_concept (fst p)) (filter (\<lambda>p. \<not> snd p) (zip quiz bs))))"
    by blast
  let ?W = "map (\<lambda>p. answer_or_concept (fst p)) (filter (\<lambda>p. \<not> snd p) (zip quiz bs))"
  have l: "length (per_question st) = min (length quiz) (length answers)"
    by (simp add: pq len)
  have t: "total st = max 1 (length (per_question st))"
    by (cases bs) (simp_all add: tot pq)
  have s1: "score st = count_list (per_question st) 1"
    by (simp only: sc pq count_ones)
  have "score st \<le> length bs" unfolding sc by (rule length_filter_le)
  then have s2: "score st \<le> total st" by (auto simp: tot)
  have tpos: "0 < total st" by (simp add: tot)
  from assms(2) s2 tpos
  have q: "0 \<le> float_div sv (score st) (total st) \<and> float_div sv (score st) (total st) \<le> 1"
    unfolding float_ok_def by blast
  with assms(2)
  have p: "0 \<le> float_mul sv (float_div sv (score st) (total st)) 100 \<and>
      float_mul sv (float_div sv (score st) (total st)) 100 \<le> 100"
    unfolding float_ok_def by blast
  with assms(2) have b: "0 \<le> percentage st \<and> percentage st \<le> 100"
    unfolding float_ok_def pc by blast
  from assms(1) have so: "set (set_list sv ?W) = set ?W" "distinct (set_list sv ?W)"
    by (simp_all add: set_list_ok_def)
  have d: "distinct (weak_areas st)"
    unfolding wk by (rule distinct_py_slice_to) (rule so(2))
  have w5: "length (weak_areas st) \<le> 5" by (simp add: wk py_slice_to_def)
  have "set (weak_areas st) \<subseteq> set ?W"
    unfolding wk using set_py_slice_to[of 5 "set_list sv ?W"] so(1) by simp
  moreover have "set ?W \<subseteq>
      {answer_or_concept (quiz ! i) | i. i < length (per_question st) \<and> per_question st ! i = 0}"
  proof
    fix x assume "x \<in> set ?W"
    then obtain p where p: "p \<in> set (zip quiz bs)" "\<not> snd p" "x = answer_or_concept (fst p)"
      by auto
    from p(1) obtain i where i: "quiz ! i = fst p" "bs ! i = snd p" "i < length quiz" "i < length bs"
      unfolding in_set_zip by blast
    with p(2) have z: "per_question st ! i = 0" by (simp add: pq)
    from i(4) have il: "i < length (per_question st)" by (simp add: pq)
    from p(3) i(1) have "x = answer_or_concept (quiz ! i)" by simp
    with il z show "x \<in> {answer_or_concept (quiz ! i) | i.
        i < length (per_question st) \<and> per_question st ! i = 0}"
      by blast
  qed
  ultimately have sub: "set (weak_areas st) \<subseteq>
      {answer_or_concept (quiz ! i) | i. i < length (per_question st) \<and> per_question st ! i = 0}"
    by (rule subset_trans)
  from assms(1) have "set (set_list sv []) = set []" unfolding set_list_ok_def by blast
  then have "set_list sv [] = []" by simp
  with assms(2) have e: "feedback sv quiz [] =
       Inr \<lparr>score = 0, total = 1, percentage = 0, per_question = [], weak_areas = []\<rparr>"
    by (rule feedback_no_answers)
  from l t s1 s2 pc b d w5 sub e show ?thesis by blast
qed

theorem grading_result_witness:
  "set_list_ok plain_services \<and> float_ok plain_services \<and>
   feedback plain_services demo_quiz demo_answers
     = Inr \<lparr>score = 2, total = 3, percentage = 667 / 10, per_question = [1, 1, 0],
            weak_areas = [''fish'']\<rparr> \<and>
   (0::rat) \<le> 667 / 10 \<and> (667 / 10 :: rat) \<le> 100 \<and>
   (667 / 10 :: rat)
     = round1 plain_services (float_mul plain_services (float_div plain_services 2 3) 100)"
proof -
  let ?st = "\<lparr>score = 2, total = 3, percentage = 667 / 10, per_question = [1, 1, 0],
            weak_areas = [''fish'']\<rparr>"
  have v: "feedback plain_services demo_quiz demo_answers
     = Inr ?st"
    by code_simp
  from grading_result[OF plain_set_list_ok plain_float_ok v]
  have "percentage ?st
      = round1 plain_services (float_mul plain_services
          (float_div plain_services (score ?st) (total ?st)) 100) \<and>
     0 \<le> percentage ?st \<and> percentage ?st \<le> 100"
    by blast
  then show ?thesis using plain_set_list_ok plain_float_ok v by simp
qed

end
